theory Spec2Isabelle
  imports Main "HOL-Library.Signed_Division"
begin

section \<open>Errors and slices\<close>

text \<open>
  The functions of \<^verbatim>\<open>verhoeff.go\<close> report failures as \<^verbatim>\<open>error\<close> values made by
  \<^verbatim>\<open>errors.New\<close>; one constructor stands for each message. An index or a slice bound
  out of range is a run-time panic in Go; it is the value \<open>IndexPanic\<close> here, so that no
  lookup of the model is left unspecified. A Go function returning \<^verbatim>\<open>(v, error)\<close> is
  a function into \<open>error + 'a\<close>; the placeholder value that accompanies an error
  (\<^verbatim>\<open>-1\<close>, \<^verbatim>\<open>false\<close>, \<^verbatim>\<open>""\<close>, \<^verbatim>\<open>nil\<close>) is not kept.
\<close>

datatype error =
    MalformedInput      \<comment> \<open>"input contains non-digit characters"\<close>
  | InvalidDigit        \<comment> \<open>"input contains invalid digit"\<close>
  | EmptyInput          \<comment> \<open>"empty input"\<close>
  | WrongLength         \<comment> \<open>"aadhaar numbers should be 12 digits in length"\<close>
  | AadhaarNotNumbers   \<comment> \<open>"aadhaar numbers must contain only numbers"\<close>
  | IndexPanic          \<comment> \<open>run-time panic: index out of range\<close>

definition index :: "'a list \<Rightarrow> int \<Rightarrow> error + 'a" where
  "index xs i = (if 0 \<le> i \<and> i < int (length xs) then Inr (xs ! nat i) else Inl IndexPanic)"

text \<open>
  The slice expression \<^verbatim>\<open>xs[:hi]\<close>.
\<close>

definition slice_to :: "'a list \<Rightarrow> int \<Rightarrow> error + 'a list" where
  "slice_to xs hi = (if 0 \<le> hi \<and> hi \<le> int (length xs) then Inr (take (nat hi) xs) else Inl IndexPanic)"

section \<open>The lookup tables\<close>

definition d :: "int list list" where
  "d = [[0, 1, 2, 3, 4, 5, 6, 7, 8, 9],
        [1, 2, 3, 4, 0, 6, 7, 8, 9, 5],
        [2, 3, 4, 0, 1, 7, 8, 9, 5, 6],
        [3, 4, 0, 1, 2, 8, 9, 5, 6, 7],
        [4, 0, 1, 2, 3, 9, 5, 6, 7, 8],
        [5, 9, 8, 7, 6, 0, 4, 3, 2, 1],
        [6, 5, 9, 8, 7, 1, 0, 4, 3, 2],
        [7, 6, 5, 9, 8, 2, 1, 0, 4, 3],
        [8, 7, 6, 5, 9, 3, 2, 1, 0, 4],
        [9, 8, 7, 6, 5, 4, 3, 2, 1, 0]]"

definition p :: "int list list" where
  "p = [[0, 1, 2, 3, 4, 5, 6, 7, 8, 9],
        [1, 5, 7, 6, 2, 8, 3, 0, 9, 4],
        [5, 8, 0, 3, 7, 9, 6, 1, 4, 2],
        [8, 9, 1, 6, 0, 4, 3, 5, 2, 7],
        [9, 4, 5, 3, 1, 2, 6, 8, 7, 0],
        [4, 2, 8, 6, 5, 7, 3, 9, 0, 1],
        [2, 7, 9, 3, 8, 0, 6, 4, 1, 5],
        [7, 0, 4, 6, 9, 1, 3, 2, 5, 8]]"

text \<open>
  The table \<^verbatim>\<open>inv\<close> of the source; the name \<open>inv\<close> is taken in HOL.
\<close>

definition inv_table :: "int list" where
  "inv_table = [0, 4, 3, 2, 1, 5, 6, 7, 8, 9]"

section \<open>Go strings and the standard library\<close>

text \<open>
  A Go string is a sequence of bytes: \<^verbatim>\<open>len(s)\<close> counts bytes, and \<^verbatim>\<open>range s\<close>
  decodes UTF-8, one rune per iteration. A string is a \<open>char list\<close> here (a \<open>char\<close>
  is a byte), and a rune is the natural number of its code point.

  \<open>decodeRune\<close> is the decoding step of the range loop, as
  \<^verbatim>\<open>utf8.DecodeRuneInString\<close> does it: the rune at the head of the string and its width
  in bytes; a byte that starts no valid encoding yields \<^verbatim>\<open>RuneError\<close> (U+FFFD) with
  width 1. \<open>first_size\<close>, \<open>accept_lo\<close> and \<open>accept_hi\<close> read the library's
  tables \<^verbatim>\<open>first\<close> and \<^verbatim>\<open>acceptRanges\<close> for a lead byte between
  \<^verbatim>\<open>0xC2\<close> and \<^verbatim>\<open>0xF4\<close>.
\<close>

definition RuneError :: nat where
  "RuneError = 0xFFFD"

definition first_size :: "nat \<Rightarrow> nat" where
  "first_size s0 = (if s0 < 0xE0 then 2 else if s0 < 0xF0 then 3 else 4)"

definition accept_lo :: "nat \<Rightarrow> nat" where
  "accept_lo s0 = (if s0 = 0xE0 then 0xA0 else if s0 = 0xF0 then 0x90 else 0x80)"

definition accept_hi :: "nat \<Rightarrow> nat" where
  "accept_hi s0 = (if s0 = 0xED then 0x9F else if s0 = 0xF4 then 0x8F else 0xBF)"

fun decodeRune :: "string \<Rightarrow> nat \<times> nat" where
  "decodeRune [] = (RuneError, 0)"
| "decodeRune (c0 # cs) =
     (let s0 = of_char c0 :: nat in
      if s0 < 0x80 then (s0, 1)
      else if s0 < 0xC2 \<or> 0xF4 < s0 then (RuneError, 1)
      else if length (c0 # cs) < first_size s0 then (RuneError, 1)
      else
        let s1 = of_char (cs ! 0) :: nat in
        if s1 < accept_lo s0 \<or> accept_hi s0 < s1 then (RuneError, 1)
        else if first_size s0 \<le> 2 then ((s0 mod 32) * 64 + s1 mod 64, 2)
        else
          let s2 = of_char (cs ! 1) :: nat in
          if s2 < 0x80 \<or> 0xBF < s2 then (RuneError, 1)
          else if first_size s0 \<le> 3 then
            ((s0 mod 16) * 4096 + (s1 mod 64) * 64 + s2 mod 64, 3)
          else
            let s3 = of_char (cs ! 2) :: nat in
            if s3 < 0x80 \<or> 0xBF < s3 then (RuneError, 1)
            else ((s0 mod 8) * 262144 + (s1 mod 64) * 4096 + (s2 mod 64) * 64 + s3 mod 64, 4))"

lemma first_size_ge: "2 \<le> first_size s0"
  by (simp add: first_size_def)

lemma decodeRune_size: "s \<noteq> [] \<Longrightarrow> decodeRune s = (r, w) \<Longrightarrow> 1 \<le> w \<and> w \<le> length s"
proof (cases s)
  case Nil
  then show "s \<noteq> [] \<Longrightarrow> ?thesis" by simp
next
  case (Cons c0 cs)
  assume "decodeRune s = (r, w)"
  then show ?thesis
    using first_size_ge [of "of_char c0"]
    unfolding Cons decodeRune.simps Let_def
    by (simp add: Suc_le_eq split: if_splits)
qed

lemma decodeRune_drop:
  "s \<noteq> [] \<Longrightarrow> (char, width) = decodeRune s \<Longrightarrow> length s - width < length s"
  using decodeRune_size [of s char width] by (cases s) auto

text \<open>
  The runes that \<^verbatim>\<open>for _, char := range s\<close> yields, in order.
\<close>

function runes :: "string \<Rightarrow> nat list" where
  "runes s =
     (if s = [] then []
      else (case decodeRune s of (char, width) \<Rightarrow> char # runes (drop width s)))"
  by pat_completeness auto
termination
  by (relation "measure length") (simp_all add: decodeRune_drop)

declare runes.simps [simp del]

text \<open>
  \<^verbatim>\<open>unicode.IsDigit\<close>: for a rune up to \<^verbatim>\<open>MaxLatin1\<close> the test
  \<^verbatim>\<open>'0' <= r && r <= '9'\<close>, beyond it membership in the range table of the
  Unicode category Nd (decimal digits). \<open>Nd\<close> lists the ranges of that table as of
  Unicode 15.0.0, the version of the Go releases the module asks for (Go 1.21); the
  proofs below read of it only that U+0660 to U+0669 are in it and U+FFFD is not.
\<close>

definition Nd :: "(nat \<times> nat) list" where
  "Nd = [(0x0030, 0x0039), (0x0660, 0x0669), (0x06F0, 0x06F9), (0x07C0, 0x07C9),
         (0x0966, 0x096F), (0x09E6, 0x09EF), (0x0A66, 0x0A6F), (0x0AE6, 0x0AEF),
         (0x0B66, 0x0B6F), (0x0BE6, 0x0BEF), (0x0C66, 0x0C6F), (0x0CE6, 0x0CEF),
         (0x0D66, 0x0D6F), (0x0DE6, 0x0DEF), (0x0E50, 0x0E59), (0x0ED0, 0x0ED9),
         (0x0F20, 0x0F29), (0x1040, 0x1049), (0x1090, 0x1099), (0x17E0, 0x17E9),
         (0x1810, 0x1819), (0x1946, 0x194F), (0x19D0, 0x19D9), (0x1A80, 0x1A89),
         (0x1A90, 0x1A99), (0x1B50, 0x1B59), (0x1BB0, 0x1BB9), (0x1C40, 0x1C49),
         (0x1C50, 0x1C59), (0xA620, 0xA629), (0xA8D0, 0xA8D9), (0xA900, 0xA909),
         (0xA9D0, 0xA9D9), (0xA9F0, 0xA9F9), (0xAA50, 0xAA59), (0xABF0, 0xABF9),
         (0xFF10, 0xFF19),
         (0x104A0, 0x104A9), (0x10D30, 0x10D39), (0x11066, 0x1106F), (0x110F0, 0x110F9),
         (0x11136, 0x1113F), (0x111D0, 0x111D9), (0x112F0, 0x112F9), (0x11450, 0x11459),
         (0x114D0, 0x114D9), (0x11650, 0x11659), (0x116C0, 0x116C9), (0x11730, 0x11739),
         (0x118E0, 0x118E9), (0x11950, 0x11959), (0x11C50, 0x11C59), (0x11D50, 0x11D59),
         (0x11DA0, 0x11DA9), (0x11F50, 0x11F59), (0x16A60, 0x16A69), (0x16AC0, 0x16AC9),
         (0x16B50, 0x16B59), (0x1D7CE, 0x1D7FF), (0x1E140, 0x1E149), (0x1E2F0, 0x1E2F9),
         (0x1E4F0, 0x1E4F9), (0x1E950, 0x1E959), (0x1FBF0, 0x1FBF9)]"

definition unicode_IsDigit :: "nat \<Rightarrow> bool" where
  "unicode_IsDigit r =
     (if r \<le> 0xFF then 0x30 \<le> r \<and> r \<le> 0x39
      else list_ex (\<lambda>(lo, hi). lo \<le> r \<and> r \<le> hi) Nd)"

text \<open>
  The value that \<^verbatim>\<open>digit, _ := strconv.Atoi(string(char))\<close> leaves in \<^verbatim>\<open>digit\<close>:
  \<^verbatim>\<open>string(char)\<close> is the UTF-8 encoding of the rune, and \<^verbatim>\<open>Atoi\<close> parses the
  one-character string of an ASCII digit to its value; on every other one-rune string
  it returns 0 with a syntax error, which the source discards.
\<close>

definition Atoi_rune :: "nat \<Rightarrow> int" where
  "Atoi_rune char = (if 0x30 \<le> char \<and> char \<le> 0x39 then int char - 0x30 else 0)"

text \<open>
  \<^verbatim>\<open>strconv.Itoa\<close>: the decimal representation, with a minus sign for a negative
  number. \<open>formatBits\<close> writes the digits of a non-negative number.
\<close>

function formatBits :: "nat \<Rightarrow> string" where
  "formatBits u =
     (if u < 10 then [char_of (0x30 + u)]
      else formatBits (u div 10) @ [char_of (0x30 + u mod 10)])"
  by pat_completeness auto
termination
  by (relation "measure id") simp_all

declare formatBits.simps [simp del]

definition Itoa :: "int \<Rightarrow> string" where
  "Itoa i = (if i < 0 then CHR ''-'' # formatBits (nat (- i)) else formatBits (nat i))"

text \<open>
  Go's \<^verbatim>\<open>int\<close> is taken as 64 bits wide, as \<^verbatim>\<open>int64\<close> is: a machine integer is an
  \<open>int\<close> from \<open>- 2 ^ 63\<close> up to \<open>2 ^ 63 - 1\<close>, and \<open>wrap64\<close> is the value an
  arithmetic result wraps around to. Division truncates (\<open>sdiv\<close>, \<open>smod\<close>).
\<close>

definition wrap64 :: "int \<Rightarrow> int" where
  "wrap64 x = (x + 2 ^ 63) mod 2 ^ 64 - 2 ^ 63"

section \<open>Digit extraction\<close>

text \<open>
  \<^verbatim>\<open>stringToDigits\<close>: the range loop stops at the first rune that
  \<^verbatim>\<open>unicode.IsDigit\<close> rejects, and appends the converted digit otherwise.
\<close>

function stringToDigits_loop :: "string \<Rightarrow> int list \<Rightarrow> error + int list" where
  "stringToDigits_loop s digits =
     (if s = [] then Inr digits
      else
        (case decodeRune s of (char, width) \<Rightarrow>
           if \<not> unicode_IsDigit char then Inl MalformedInput
           else stringToDigits_loop (drop width s) (digits @ [Atoi_rune char])))"
  by pat_completeness auto
termination
  by (relation "measure (\<lambda>(s, digits). length s)") (simp_all add: decodeRune_drop)

declare stringToDigits_loop.simps [simp del]

definition stringToDigits :: "string \<Rightarrow> error + int list" where
  "stringToDigits s = (if s = [] then Inr [] else stringToDigits_loop s [])"

text \<open>
  \<^verbatim>\<open>intToDigits\<close>: the first loop counts the digits
  (\<^verbatim>\<open>for temp > 0 { count++; temp /= 10 }\<close>), the second fills the slice from its end
  (\<^verbatim>\<open>for i := count - 1; i >= 0; i-- { digits[i] = n % 10; n /= 10 }\<close>).
  \<^verbatim>\<open>int64ToDigits\<close> has the same text over \<^verbatim>\<open>int64\<close>.
\<close>

lemma sdiv_10_nonneg: "0 \<le> a \<Longrightarrow> a sdiv 10 = a div (10 :: int)"
  by (simp add: signed_divide_int_def sgn_if)

lemma smod_10_nonneg: "0 \<le> a \<Longrightarrow> a smod 10 = a mod (10 :: int)"
  by (simp add: smod_mod_positive)

function intToDigits_count :: "int \<Rightarrow> int \<Rightarrow> int" where
  "intToDigits_count temp count =
     (if temp > 0 then intToDigits_count (temp sdiv 10) (count + 1) else count)"
  by pat_completeness auto
termination
  by (relation "measure (\<lambda>(temp, count). nat temp)") (simp_all add: sdiv_10_nonneg)

declare intToDigits_count.simps [simp del]

function intToDigits_fill :: "int \<Rightarrow> int \<Rightarrow> int list \<Rightarrow> error + int list" where
  "intToDigits_fill i n digits =
     (if i \<ge> 0 then
        (if i < int (length digits)
         then intToDigits_fill (i - 1) (n sdiv 10) (digits[nat i := n smod 10])
         else Inl IndexPanic)
      else Inr digits)"
  by pat_completeness auto
termination
  by (relation "measure (\<lambda>(i, n, digits). nat (i + 1))") simp_all

declare intToDigits_fill.simps [simp del]

definition intToDigits :: "int \<Rightarrow> error + int list" where
  "intToDigits n =
     (if n = 0 then Inr [0]
      else
        let n = (if n < 0 then wrap64 (- n) else n);
            count = intToDigits_count n 0
        in intToDigits_fill (count - 1) n (replicate (nat count) 0))"

definition int64ToDigits :: "int \<Rightarrow> error + int list" where
  "int64ToDigits n =
     (if n = 0 then Inr [0]
      else
        let n = (if n < 0 then wrap64 (- n) else n);
            count = intToDigits_count n 0
        in intToDigits_fill (count - 1) n (replicate (nat count) 0))"

text \<open>
  \<^verbatim>\<open>sliceToDigits\<close> copies the slice into a new one, element by element.
\<close>

fun sliceToDigits_loop :: "nat \<Rightarrow> int list \<Rightarrow> int list \<Rightarrow> error + int list" where
  "sliceToDigits_loop i [] result = Inr result"
| "sliceToDigits_loop i (digit # rest) result =
     (if digit < 0 \<or> digit > 9 then Inl InvalidDigit
      else
        (case index result (int i) of Inl e \<Rightarrow> Inl e | Inr old \<Rightarrow>
           sliceToDigits_loop (i + 1) rest (result[i := digit])))"

definition sliceToDigits :: "int list \<Rightarrow> error + int list" where
  "sliceToDigits slice = sliceToDigits_loop 0 slice (replicate (length slice) 0)"

section \<open>The checksum kernel\<close>

text \<open>
  \<^verbatim>\<open>reverseDigits\<close> swaps in place from both ends, \<^verbatim>\<open>i\<close> going up and \<^verbatim>\<open>j\<close> going down
  while \<^verbatim>\<open>i < j\<close>. The model returns the updated slice.
\<close>

function reverseDigits_loop :: "int \<Rightarrow> int \<Rightarrow> int list \<Rightarrow> error + int list" where
  "reverseDigits_loop i j digits =
     (if i < j then
        (case index digits j of Inl e \<Rightarrow> Inl e | Inr dj \<Rightarrow>
        (case index digits i of Inl e \<Rightarrow> Inl e | Inr di \<Rightarrow>
           reverseDigits_loop (i + 1) (j - 1) (digits[nat i := dj, nat j := di])))
      else Inr digits)"
  by pat_completeness auto
termination
  by (relation "measure (\<lambda>(i, j, digits). nat (j - i))") auto

definition reverseDigits :: "int list \<Rightarrow> error + int list" where
  "reverseDigits digits = reverseDigits_loop 0 (int (length digits) - 1) digits"

text \<open>
  The loop of \<^verbatim>\<open>calculateChecksum\<close>: \<^verbatim>\<open>for i, digit := range reversed\<close> with body
  \<^verbatim>\<open>c = d[c][p[(i+1)%8][digit]]\<close>. The range index \<open>i\<close> counts from 0, so Go's
  truncating \<^verbatim>\<open>%\<close> is \<open>mod\<close> on it.
\<close>

fun calculateChecksum_loop :: "nat \<Rightarrow> int \<Rightarrow> int list \<Rightarrow> error + int" where
  "calculateChecksum_loop i c [] = Inr c"
| "calculateChecksum_loop i c (digit # rest) =
     (case index d c of Inl e \<Rightarrow> Inl e | Inr drow \<Rightarrow>
     (case index p (int ((i + 1) mod 8)) of Inl e \<Rightarrow> Inl e | Inr prow \<Rightarrow>
     (case index prow digit of Inl e \<Rightarrow> Inl e | Inr pd \<Rightarrow>
     (case index drow pd of Inl e \<Rightarrow> Inl e | Inr c' \<Rightarrow>
        calculateChecksum_loop (i + 1) c' rest))))"

definition calculateChecksum :: "int list \<Rightarrow> error + int" where
  "calculateChecksum digits =
     (case reverseDigits digits of Inl e \<Rightarrow> Inl e | Inr reversed \<Rightarrow>
     (case calculateChecksum_loop 0 0 reversed of Inl e \<Rightarrow> Inl e | Inr c \<Rightarrow>
        index inv_table c))"

text \<open>
  The loop of \<^verbatim>\<open>validateChecksum\<close>, with body \<^verbatim>\<open>c = d[c][p[i%8][digit]]\<close>.
\<close>

fun validateChecksum_loop :: "nat \<Rightarrow> int \<Rightarrow> int list \<Rightarrow> error + int" where
  "validateChecksum_loop i c [] = Inr c"
| "validateChecksum_loop i c (digit # rest) =
     (case index d c of Inl e \<Rightarrow> Inl e | Inr drow \<Rightarrow>
     (case index p (int (i mod 8)) of Inl e \<Rightarrow> Inl e | Inr prow \<Rightarrow>
     (case index prow digit of Inl e \<Rightarrow> Inl e | Inr pd \<Rightarrow>
     (case index drow pd of Inl e \<Rightarrow> Inl e | Inr c' \<Rightarrow>
        validateChecksum_loop (i + 1) c' rest))))"

definition validateChecksum :: "int list \<Rightarrow> error + bool" where
  "validateChecksum digits =
     (if length digits = 0 then Inr False
      else
       (case reverseDigits digits of Inl e \<Rightarrow> Inl e | Inr reversed \<Rightarrow>
       (case validateChecksum_loop 0 0 reversed of Inl e \<Rightarrow> Inl e | Inr c \<Rightarrow>
          Inr (c = 0))))"

section \<open>Public operations\<close>

definition GenerateFromString :: "string \<Rightarrow> error + int" where
  "GenerateFromString s =
     (case stringToDigits s of Inl err \<Rightarrow> Inl err | Inr digits \<Rightarrow> calculateChecksum digits)"

definition GenerateInt :: "int \<Rightarrow> error + int" where
  "GenerateInt n =
     (case intToDigits n of Inl e \<Rightarrow> Inl e | Inr digits \<Rightarrow> calculateChecksum digits)"

definition GenerateInt64 :: "int \<Rightarrow> error + int" where
  "GenerateInt64 n =
     (case int64ToDigits n of Inl e \<Rightarrow> Inl e | Inr digits \<Rightarrow> calculateChecksum digits)"

definition GenerateSlice :: "int list \<Rightarrow> error + int" where
  "GenerateSlice digits =
     (case sliceToDigits digits of Inl err \<Rightarrow> Inl err | Inr validDigits \<Rightarrow>
        calculateChecksum validDigits)"

definition ValidateString :: "string \<Rightarrow> error + bool" where
  "ValidateString s =
     (case stringToDigits s of Inl err \<Rightarrow> Inl err | Inr digits \<Rightarrow>
        if length digits = 0 then Inl EmptyInput else validateChecksum digits)"

definition ValidateSlice :: "int list \<Rightarrow> error + bool" where
  "ValidateSlice digits =
     (case sliceToDigits digits of Inl err \<Rightarrow> Inl err | Inr validDigits \<Rightarrow>
        if length validDigits = 0 then Inl EmptyInput else validateChecksum validDigits)"

text \<open>
  \<^verbatim>\<open>ValidateAadhaar\<close> tests \<^verbatim>\<open>len(aadhaarStr) != 12\<close> first, replaces the error of
  \<^verbatim>\<open>stringToDigits\<close> by its own, and compares the last digit with the checksum of
  the digits before it.
\<close>

definition ValidateAadhaar :: "string \<Rightarrow> error + bool" where
  "ValidateAadhaar aadhaarStr =
     (if length aadhaarStr \<noteq> 12 then Inl WrongLength
      else
       (case stringToDigits aadhaarStr of Inl err \<Rightarrow> Inl AadhaarNotNumbers | Inr digits \<Rightarrow>
       (case index digits (int (length digits) - 1) of Inl e \<Rightarrow> Inl e | Inr checksum \<Rightarrow>
       (case slice_to digits (int (length digits) - 1) of Inl e \<Rightarrow> Inl e | Inr front \<Rightarrow>
       (case calculateChecksum front of Inl e \<Rightarrow> Inl e | Inr expectedChecksum \<Rightarrow>
          Inr (checksum = expectedChecksum))))))"

definition AppendChecksumString :: "string \<Rightarrow> error + string" where
  "AppendChecksumString s =
     (case GenerateFromString s of Inl err \<Rightarrow> Inl err | Inr checksum \<Rightarrow>
        Inr (s @ Itoa checksum))"

definition AppendChecksumInt :: "int \<Rightarrow> error + string" where
  "AppendChecksumInt n =
     (case GenerateInt n of Inl e \<Rightarrow> Inl e | Inr checksum \<Rightarrow>
        Inr (Itoa n @ Itoa checksum))"

section \<open>The kernel as the specification words it\<close>

text \<open>
  The specification describes generation and validation as a fold over the positions
  \<open>0, \<dots>, L - 1\<close> of the reversed sequence \<open>R\<close>. These two definitions follow
  its words; they are compared with the functions above.
\<close>

definition spec_generate :: "int list \<Rightarrow> int" where
  "spec_generate D =
     (let R = rev D; L = length D in
      inv_table ! nat (fold (\<lambda>i c. d ! nat c ! nat (p ! ((i + 1) mod 8) ! nat (R ! i))) [0..<L] 0))"

definition spec_validate :: "int list \<Rightarrow> bool" where
  "spec_validate D =
     (let R = rev D; L = length D in
      fold (\<lambda>i c. d ! nat c ! nat (p ! (i mod 8) ! nat (R ! i))) [0..<L] 0 = 0)"

section \<open>Auxiliary notions for the proofs\<close>

text \<open>
  A digit is an integer between 0 and 9. \<open>dop\<close> and \<open>perm\<close> read the tables
  \<open>d\<close> and \<open>p\<close> at digits, and \<open>vfold\<close> is the common fold of both loops,
  started at position \<open>i\<close> with state \<open>c\<close>. \<open>ascii_digit\<close> holds of the bytes
  \<^verbatim>\<open>'0'\<close> to \<^verbatim>\<open>'9'\<close>. \<open>decimal n\<close> is the sequence of decimal digits of a
  non-negative \<open>n\<close>, most significant first, and \<open>low_digits k n\<close> the sequence of
  its \<open>k\<close> lowest digits.
\<close>

definition is_digit :: "int \<Rightarrow> bool" where
  "is_digit x \<longleftrightarrow> 0 \<le> x \<and> x \<le> 9"

definition dop :: "int \<Rightarrow> int \<Rightarrow> int" where
  "dop a b = d ! nat a ! nat b"

definition perm :: "nat \<Rightarrow> int \<Rightarrow> int" where
  "perm i x = p ! (i mod 8) ! nat x"

fun vfold :: "nat \<Rightarrow> int \<Rightarrow> int list \<Rightarrow> int" where
  "vfold i c [] = c"
| "vfold i c (x # xs) = vfold (i + 1) (dop c (perm i x)) xs"

definition digits_ok :: "int list \<Rightarrow> bool" where
  "digits_ok xs \<longleftrightarrow> (\<forall>x\<in>set xs. is_digit x)"

definition ascii_digit :: "char \<Rightarrow> bool" where
  "ascii_digit c \<longleftrightarrow> 0x30 \<le> (of_char c :: nat) \<and> (of_char c :: nat) \<le> 0x39"

function decimal :: "int \<Rightarrow> int list" where
  "decimal n = (if n < 10 then [n] else decimal (n div 10) @ [n mod 10])"
  by pat_completeness auto
termination
  by (relation "measure nat") simp_all

declare decimal.simps [simp del]

fun low_digits :: "nat \<Rightarrow> int \<Rightarrow> int list" where
  "low_digits 0 n = []"
| "low_digits (Suc k) n = low_digits k (n div 10) @ [n mod 10]"

section \<open>Facts about the tables\<close>

text \<open>
  Each fact is checked on all entries of the tables: \<open>d\<close> is closed, associative and
  cancellative on digits, every row of \<open>p\<close> is a permutation of the digits,
  \<open>inv_table\<close> gives inverses, and no two different digits at neighbouring positions
  have the same product in both orders.
\<close>

lemma digits_all: "list_all P [0..9] \<Longrightarrow> is_digit a \<Longrightarrow> P a"
  by (simp add: list_all_iff is_digit_def)

lemma rows_all: "list_all P [0..<8] \<Longrightarrow> P (i mod 8)"
  by (simp add: list_all_iff)

lemma d_closed_tab:
  "list_all (\<lambda>a. list_all (\<lambda>b. is_digit (dop a b)) [0..9]) [0..9]"
  by code_simp

lemma p_closed_tab:
  "list_all (\<lambda>i. list_all (\<lambda>a. is_digit (perm i a)) [0..9]) [0..<8]"
  by code_simp

lemma d_assoc_tab:
  "list_all (\<lambda>a. list_all (\<lambda>b. list_all (\<lambda>c. dop (dop a b) c = dop a (dop b c)) [0..9]) [0..9]) [0..9]"
  by code_simp

lemma d_left_cancel_tab:
  "list_all (\<lambda>a. list_all (\<lambda>b. list_all (\<lambda>c. dop a b = dop a c \<longrightarrow> b = c) [0..9]) [0..9]) [0..9]"
  by code_simp

lemma d_right_cancel_tab:
  "list_all (\<lambda>a. list_all (\<lambda>b. list_all (\<lambda>c. dop a c = dop b c \<longrightarrow> a = b) [0..9]) [0..9]) [0..9]"
  by code_simp

lemma p_inj_tab:
  "list_all (\<lambda>i. list_all (\<lambda>a. list_all (\<lambda>b. perm i a = perm i b \<longrightarrow> a = b) [0..9]) [0..9]) [0..<8]"
  by code_simp

lemma d_inv_tab:
  "list_all (\<lambda>a. is_digit (inv_table ! nat a) \<and> dop 0 a = a \<and> dop a 0 = a \<and> perm 0 a = a \<and>
      list_all (\<lambda>b. dop b a = 0 \<longleftrightarrow> b = inv_table ! nat a) [0..9]) [0..9]"
  by code_simp

lemma transposition_tab:
  "list_all (\<lambda>i. list_all (\<lambda>a. list_all (\<lambda>b.
      dop (perm i a) (perm (i + 1) b) = dop (perm i b) (perm (i + 1) a) \<longrightarrow> a = b)
      [0..9]) [0..9]) [0..<8]"
  by code_simp

lemma rows_len_tab:
  "length d = 10 \<and> length p = 8 \<and> length inv_table = 10 \<and> list_all (\<lambda>a. length (d ! nat a) = 10) [0..9] \<and> list_all (\<lambda>i. length (p ! i) = 10) [0..<8]"
  by code_simp

lemma dop_digit: "is_digit a \<Longrightarrow> is_digit b \<Longrightarrow> is_digit (dop a b)"
  using digits_all [OF digits_all [OF d_closed_tab]] by blast

lemma perm_digit: "is_digit a \<Longrightarrow> is_digit (perm i a)"
  using digits_all [OF rows_all [OF p_closed_tab], of a i] by (simp add: perm_def)

lemma dop_assoc: "is_digit a \<Longrightarrow> is_digit b \<Longrightarrow> is_digit c \<Longrightarrow> dop (dop a b) c = dop a (dop b c)"
  using digits_all [OF digits_all [OF digits_all [OF d_assoc_tab]]] by blast

lemma dop_left_cancel: "is_digit a \<Longrightarrow> is_digit b \<Longrightarrow> is_digit c \<Longrightarrow> dop a b = dop a c \<Longrightarrow> b = c"
  using digits_all [OF digits_all [OF digits_all [OF d_left_cancel_tab]]] by blast

lemma dop_right_cancel: "is_digit a \<Longrightarrow> is_digit b \<Longrightarrow> is_digit c \<Longrightarrow> dop a c = dop b c \<Longrightarrow> a = b"
  using digits_all [OF digits_all [OF digits_all [OF d_right_cancel_tab]]] by blast

lemma perm_inj: "is_digit a \<Longrightarrow> is_digit b \<Longrightarrow> perm i a = perm i b \<Longrightarrow> a = b"
  using digits_all [OF digits_all [OF rows_all [OF p_inj_tab]], of a b i] by (simp add: perm_def)

lemma transposition: "is_digit a \<Longrightarrow> is_digit b \<Longrightarrow>
   dop (perm i a) (perm (i + 1) b) = dop (perm i b) (perm (i + 1) a) \<Longrightarrow> a = b"
  using digits_all [OF digits_all [OF rows_all [OF transposition_tab]], of a b i]
  by (simp add: perm_def mod_Suc_eq)

lemma digit_facts:
  "is_digit a \<Longrightarrow> is_digit (inv_table ! nat a) \<and> dop 0 a = a \<and> dop a 0 = a \<and> perm 0 a = a"
  using digits_all [OF d_inv_tab, of a] by simp

lemma dop_zero_iff: "is_digit a \<Longrightarrow> is_digit b \<Longrightarrow> dop b a = 0 \<longleftrightarrow> b = inv_table ! nat a"
  using digits_all [OF d_inv_tab, of a] digits_all [of _ b] by blast

lemma is_digit_0: "is_digit 0"
  by (simp add: is_digit_def)

lemma nat_digit: "is_digit g \<Longrightarrow> nat g < 10 \<and> int (nat g) = g"
  unfolding is_digit_def by linarith

section \<open>Reversal\<close>

lemma reverseDigits_loop_nth:
  "0 \<le> i \<Longrightarrow> j < int (length xs) \<Longrightarrow>
   \<exists>ys. reverseDigits_loop i j xs = Inr ys \<and> length ys = length xs \<and>
     (\<forall>k<length xs. ys ! k = (if i \<le> int k \<and> int k \<le> j then xs ! nat (i + j - int k) else xs ! k))"
proof (induction i j xs rule: reverseDigits_loop.induct)
  case (1 i j digits)
  note IH = 1(1) and i0 = 1(2) and jlen = 1(3)
  show ?case
  proof (cases "i < j")
    case False
    then have "\<forall>k<length digits. i \<le> int k \<and> int k \<le> j \<longrightarrow> nat (i + j - int k) = k"
      by auto
    with False show ?thesis by auto
  next
    case True
    let ?xs = "digits[nat i := digits ! nat j, nat j := digits ! nat i]"
    have ij: "index digits j = Inr (digits ! nat j)" "index digits i = Inr (digits ! nat i)"
      using True i0 jlen by (simp_all add: index_def)
    have "\<exists>ys. reverseDigits_loop (i + 1) (j - 1) ?xs = Inr ys \<and> length ys = length ?xs \<and>
     (\<forall>k<length ?xs. ys ! k = (if i + 1 \<le> int k \<and> int k \<le> j - 1 then ?xs ! nat (i + 1 + (j - 1) - int k) else ?xs ! k))"
      using IH [OF True ij(1) ij(2)] i0 jlen by simp
    then obtain ys where ys: "reverseDigits_loop (i + 1) (j - 1) ?xs = Inr ys" "length ys = length digits"
      and nth: "\<And>k. k < length digits \<Longrightarrow> ys ! k = (if i + 1 \<le> int k \<and> int k \<le> j - 1 then ?xs ! nat (i + j - int k) else ?xs ! k)"
      by auto
    have eq: "reverseDigits_loop i j digits = Inr ys"
      using True ij ys(1) by simp
    have "ys ! k = (if i \<le> int k \<and> int k \<le> j then digits ! nat (i + j - int k) else digits ! k)"
      if k: "k < length digits" for k
    proof -
      consider "int k = i" | "int k = j" | "i < int k" "int k < j" | "int k < i" | "j < int k"
        by linarith
      then show ?thesis
      proof cases
        case 1 
        then have "k = nat i" by simp
        with 1 show ?thesis using nth [OF k] True k i0 jlen by (simp add: nth_list_update)
      next
        case 2
        then have "k = nat j" by simp
        with 2 show ?thesis using nth [OF k] True k \<open>0 \<le> i\<close> by (simp add: nth_list_update)
      next
        case 3
        then have "nat (i + j - int k) \<noteq> nat i" "nat (i + j - int k) \<noteq> nat j" "nat (i + j - int k) < length digits"
          using \<open>0 \<le> i\<close> \<open>j < int (length digits)\<close> by auto
        with 3 show ?thesis using nth [OF k] by (simp add: nth_list_update)
      next
        case 4
        then have "k \<noteq> nat i" "k \<noteq> nat j" using True by auto
        with 4 show ?thesis using nth [OF k] by (simp add: nth_list_update)
      next
        case 5
        then have "k \<noteq> nat i" "k \<noteq> nat j" using True \<open>0 \<le> i\<close> by auto
        with 5 show ?thesis using nth [OF k] True by (simp add: nth_list_update)
      qed
    qed
    with eq ys(2) show ?thesis by blast
  qed
qed

lemma reverseDigits_rev: "reverseDigits xs = Inr (rev xs)"
proof -
  obtain ys where ys: "reverseDigits_loop 0 (int (length xs) - 1) xs = Inr ys" "length ys = length xs"
    and nth: "\<And>k. k < length xs \<Longrightarrow>
       ys ! k = (if 0 \<le> int k \<and> int k \<le> int (length xs) - 1 then xs ! nat (0 + (int (length xs) - 1) - int k) else xs ! k)"
    using reverseDigits_loop_nth [of 0 "int (length xs) - 1" xs] by auto
  have "ys = rev xs"
  proof (rule nth_equalityI)
    show "length ys = length (rev xs)" using ys(2) by simp
  next
    fix k assume "k < length ys"
    then have k: "k < length xs" using ys(2) by simp
    then have "nat (0 + (int (length xs) - 1) - int k) = length xs - Suc k" by auto
    then show "ys ! k = rev xs ! k" using nth [OF k] k by (simp add: rev_nth)
  qed
  with ys(1) show ?thesis by (simp add: reverseDigits_def)
qed

section \<open>The loops as folds\<close>

lemma index_d: "is_digit c \<Longrightarrow> index d c = Inr (d ! nat c)"
  using rows_len_tab by (simp add: index_def is_digit_def)

lemma index_d_row: "is_digit c \<Longrightarrow> is_digit x \<Longrightarrow> index (d ! nat c) x = Inr (dop c x)"
  using digits_all [of "\<lambda>a. length (d ! nat a) = 10" c] rows_len_tab
  by (simp add: index_def is_digit_def dop_def)

lemma index_p: "index p (int (i mod 8)) = Inr (p ! (i mod 8))"
  using rows_len_tab by (simp add: index_def)

lemma index_p_row: "is_digit x \<Longrightarrow> index (p ! (i mod 8)) x = Inr (perm i x)"
  using rows_all [of "\<lambda>i. length (p ! i) = 10" i] rows_len_tab
  by (simp add: index_def is_digit_def perm_def)

lemma index_inv: "is_digit c \<Longrightarrow> index inv_table c = Inr (inv_table ! nat c)"
  using rows_len_tab by (simp add: index_def is_digit_def)

lemma validateChecksum_loop_vfold:
  "digits_ok xs \<Longrightarrow> is_digit c \<Longrightarrow> validateChecksum_loop i c xs = Inr (vfold i c xs)"
proof (induction xs arbitrary: i c)
  case Nil
  then show ?case by simp
next
  case (Cons x xs)
  then have x: "is_digit x" and xs: "digits_ok xs" by (simp_all add: digits_ok_def)
  have "is_digit (dop c (perm i x))"
    using Cons.prems(2) x by (simp add: dop_digit perm_digit)
  then show ?case
    using Cons.IH [OF xs] Cons.prems(2) x
    by (simp add: index_d index_p index_p_row index_d_row perm_digit)
qed

lemma calculateChecksum_loop_vfold:
  "digits_ok xs \<Longrightarrow> is_digit c \<Longrightarrow> calculateChecksum_loop i c xs = Inr (vfold (i + 1) c xs)"
proof (induction xs arbitrary: i c)
  case Nil
  then show ?case by simp
next
  case (Cons x xs)
  then have x: "is_digit x" and xs: "digits_ok xs" by (simp_all add: digits_ok_def)
  have "is_digit (dop c (perm (i + 1) x))"
    using Cons.prems(2) x by (simp add: dop_digit perm_digit)
  then show ?case
    using Cons.IH [OF xs, of "dop c (perm (i + 1) x)" "i + 1"] Cons.prems(2) x
      index_p [of "i + 1"] index_p_row [of x "i + 1"]
    by (simp add: index_d index_d_row perm_digit)
qed

lemma vfold_digit: "digits_ok xs \<Longrightarrow> is_digit c \<Longrightarrow> is_digit (vfold i c xs)"
  by (induction xs arbitrary: i c) (simp_all add: digits_ok_def dop_digit perm_digit)

lemma fold_index_vfold:
  "fold (\<lambda>i c. dop c (perm (k + i) (xs ! i))) [0..<length xs] c = vfold k c xs"
proof (induction xs arbitrary: k c)
  case Nil
  then show ?case by simp
next
  case (Cons x xs)
  have "[0..<length (x # xs)] = 0 # map Suc [0..<length xs]"
    by (simp add: upt_conv_Cons map_Suc_upt del: upt_Suc)
  then show ?case
    using Cons.IH [of "Suc k" "dop c (perm k x)"] by (simp add: fold_map o_def)
qed

lemma digits_ok_rev: "digits_ok (rev xs) = digits_ok xs"
  by (simp add: digits_ok_def)

lemma calculateChecksum_vfold:
  "digits_ok D \<Longrightarrow> calculateChecksum D = Inr (inv_table ! nat (vfold 1 0 (rev D)))"
proof -
  assume D: "digits_ok D"
  have z: "is_digit 0" by (simp add: is_digit_def)
  have "is_digit (vfold 1 0 (rev D))"
    using D z by (simp add: vfold_digit digits_ok_rev)
  then show ?thesis
    using calculateChecksum_loop_vfold [of "rev D" 0 0] D z
    by (simp add: calculateChecksum_def reverseDigits_rev digits_ok_rev index_inv)
qed

lemma validateChecksum_vfold:
  "digits_ok D \<Longrightarrow> D \<noteq> [] \<Longrightarrow> validateChecksum D = Inr (vfold 0 0 (rev D) = 0)"
  using validateChecksum_loop_vfold [of "rev D" 0 0]
  by (simp add: validateChecksum_def reverseDigits_rev digits_ok_rev is_digit_def)

lemma spec_generate_vfold: "spec_generate D = inv_table ! nat (vfold 1 0 (rev D))"
  using fold_index_vfold [of 1 "rev D" 0]
  by (simp add: spec_generate_def Let_def dop_def perm_def)

lemma spec_validate_vfold: "spec_validate D = (vfold 0 0 (rev D) = 0)"
  using fold_index_vfold [of 0 "rev D" 0]
  by (simp add: spec_validate_def Let_def dop_def perm_def)

section \<open>The fold as a product in the group\<close>

text \<open>
  Since \<open>d\<close> is associative, the state after a fold started at \<open>dop a c\<close> is
  \<open>a\<close> times the state after the fold started at \<open>c\<close>; since it is cancellative, the
  fold is injective in its start state. The check digit is the inverse of the state
  that the other digits fold to.
\<close>

lemma vfold_append: "vfold k c (xs @ ys) = vfold (k + length xs) (vfold k c xs) ys"
  by (induction xs arbitrary: k c) simp_all

lemma vfold_assoc:
  "digits_ok xs \<Longrightarrow> is_digit a \<Longrightarrow> is_digit c \<Longrightarrow> vfold k (dop a c) xs = dop a (vfold k c xs)"
proof (induction xs arbitrary: k c)
  case Nil
  then show ?case by simp
next
  case (Cons x xs)
  then have x: "is_digit (perm k x)" and xs: "digits_ok xs"
    by (simp_all add: digits_ok_def perm_digit)
  have "dop (dop a c) (perm k x) = dop a (dop c (perm k x))"
    using Cons.prems(2,3) x by (rule dop_assoc)
  moreover have "is_digit (dop c (perm k x))"
    using Cons.prems(3) x by (rule dop_digit)
  ultimately show ?case
    using Cons.IH [OF xs Cons.prems(2)] by simp
qed

lemma vfold_inj:
  "digits_ok xs \<Longrightarrow> is_digit a \<Longrightarrow> is_digit b \<Longrightarrow> vfold k a xs = vfold k b xs \<Longrightarrow> a = b"
proof (induction xs arbitrary: k a b)
  case Nil
  then show ?case by simp
next
  case (Cons x xs)
  then have x: "is_digit (perm k x)" and xs: "digits_ok xs"
    by (simp_all add: digits_ok_def perm_digit)
  have "dop a (perm k x) = dop b (perm k x)"
    using Cons.IH [OF xs, of "dop a (perm k x)" "dop b (perm k x)" "k + 1"] Cons.prems x
    by (simp add: dop_digit)
  then show ?case
    using Cons.prems(2,3) x dop_right_cancel by blast
qed

lemma vfold_with_check_digit:
  assumes "digits_ok D" "is_digit k"
  shows "vfold 0 0 (rev (D @ [k])) = dop k (vfold 1 0 (rev D))"
proof -
  have "vfold 0 0 (rev (D @ [k])) = vfold 1 (dop k 0) (rev D)"
    using digit_facts [OF assms(2)] by simp
  also have "\<dots> = dop k (vfold 1 0 (rev D))"
    using assms is_digit_0 by (simp add: vfold_assoc digits_ok_rev)
  finally show ?thesis .
qed

lemma validateChecksum_append:
  assumes "digits_ok D" "is_digit k" "calculateChecksum D = Inr g"
  shows "validateChecksum (D @ [k]) = Inr (k = g)"
proof -
  have g: "g = inv_table ! nat (vfold 1 0 (rev D))"
    using assms(1,3) by (simp add: calculateChecksum_vfold)
  have c: "is_digit (vfold 1 0 (rev D))"
    using assms(1) is_digit_0 by (simp add: vfold_digit digits_ok_rev)
  have "digits_ok (D @ [k])"
    using assms(1,2) by (simp add: digits_ok_def)
  then have "validateChecksum (D @ [k]) = Inr (vfold 0 0 (rev (D @ [k])) = 0)"
    by (simp add: validateChecksum_vfold)
  also have "\<dots> = Inr (dop k (vfold 1 0 (rev D)) = 0)"
    using vfold_with_check_digit [OF assms(1,2)] by simp
  also have "\<dots> = Inr (k = g)"
    using dop_zero_iff [OF c assms(2)] g by simp
  finally show ?thesis .
qed

lemma calculateChecksum_digit:
  "digits_ok D \<Longrightarrow> calculateChecksum D = Inr g \<Longrightarrow> is_digit g"
  using digit_facts [of "vfold 1 0 (rev D)"] is_digit_0
  by (simp add: calculateChecksum_vfold vfold_digit digits_ok_rev)

lemma calculateChecksum_total: "digits_ok ds \<Longrightarrow> \<exists>g. calculateChecksum ds = Inr g \<and> is_digit g"
  using calculateChecksum_digit [of ds] by (simp add: calculateChecksum_vfold)

lemma full_valid:
  assumes "digits_ok s" "calculateChecksum s = Inr g"
  shows "digits_ok (s @ [g])" "vfold 0 0 (rev (s @ [g])) = 0"
proof -
  have g: "is_digit g" using assms by (rule calculateChecksum_digit)
  then show ok: "digits_ok (s @ [g])" using assms(1) by (simp add: digits_ok_def)
  have "validateChecksum (s @ [g]) = Inr True"
    using validateChecksum_append [OF assms(1) g assms(2)] by simp
  then show "vfold 0 0 (rev (s @ [g])) = 0"
    using ok by (simp add: validateChecksum_vfold)
qed

lemma vfold_single_change:
  assumes "digits_ok R" "j < length R" "is_digit v" "v \<noteq> R ! j"
  shows "vfold 0 0 (R[j := v]) \<noteq> vfold 0 0 R"
proof
  let ?A = "take j R" and ?B = "drop (Suc j) R"
  let ?c = "vfold 0 0 ?A"
  assume eq: "vfold 0 0 (R[j := v]) = vfold 0 0 R"
  have R: "R = ?A @ R ! j # ?B" using assms(2) by (rule id_take_nth_drop)
  have R': "R[j := v] = ?A @ v # ?B" using assms(2) by (rule upd_conv_take_nth_drop)
  have A: "digits_ok ?A" and B: "digits_ok ?B" and x: "is_digit (R ! j)"
    using assms(1,2) by (auto simp: digits_ok_def dest: in_set_takeD in_set_dropD)
  have c: "is_digit ?c" using A is_digit_0 by (rule vfold_digit)
  have len: "length ?A = j" using assms(2) by simp
  have "vfold 0 0 (?A @ v # ?B) = vfold 0 0 (?A @ R ! j # ?B)"
    using eq R R' by simp
  then have "vfold (Suc j) (dop ?c (perm j v)) ?B = vfold (Suc j) (dop ?c (perm j (R ! j))) ?B"
    using assms(2) by (simp add: vfold_append min_def)
  then have "dop ?c (perm j v) = dop ?c (perm j (R ! j))"
    using B c x assms(3) vfold_inj [of ?B "dop ?c (perm j v)" "dop ?c (perm j (R ! j))" "Suc j"]
    by (simp add: dop_digit perm_digit)
  then have "perm j v = perm j (R ! j)"
    using c x assms(3) dop_left_cancel [of ?c "perm j v" "perm j (R ! j)"] by (simp add: perm_digit)
  then have "v = R ! j"
    using x assms(3) perm_inj by blast
  with assms(4) show False by simp
qed

lemma vfold_adjacent_swap:
  assumes "digits_ok R" "Suc j < length R" "R ! j \<noteq> R ! Suc j"
  shows "vfold 0 0 (R[j := R ! Suc j, Suc j := R ! j]) \<noteq> vfold 0 0 R"
proof
  let ?A = "take j R" and ?B = "drop (Suc (Suc j)) R"
  let ?a = "R ! j" and ?b = "R ! Suc j"
  let ?c = "vfold 0 0 ?A"
  assume eq: "vfold 0 0 (R[j := ?b, Suc j := ?a]) = vfold 0 0 R"
  have "R = ?A @ ?a # drop (Suc j) R" using assms(2) by (simp add: id_take_nth_drop)
  moreover have "drop (Suc j) R = ?b # ?B" using assms(2) by (simp add: Cons_nth_drop_Suc)
  ultimately have R: "R = ?A @ ?a # ?b # ?B" by simp
  have len: "length ?A = j" using assms(2) by simp
  have "(?A @ ?a # ?b # ?B)[j := ?b, Suc j := ?a] = ?A @ ?b # ?a # ?B"
    using len by (simp add: list_update_append)
  then have R': "R[j := ?b, Suc j := ?a] = ?A @ ?b # ?a # ?B" using R by simp
  have A: "digits_ok ?A" and B: "digits_ok ?B" and a: "is_digit ?a" and b: "is_digit ?b"
    using assms(1,2) by (auto simp: digits_ok_def dest: in_set_takeD in_set_dropD)
  have c: "is_digit ?c" using A is_digit_0 by (rule vfold_digit)
  have pa: "is_digit (perm j ?a)" "is_digit (perm (j + 1) ?a)"
    and pb: "is_digit (perm j ?b)" "is_digit (perm (j + 1) ?b)"
    using a b by (simp_all add: perm_digit)
  have "vfold 0 0 (?A @ ?b # ?a # ?B) = vfold 0 0 (?A @ ?a # ?b # ?B)"
    using eq R R' by simp
  then have "vfold (Suc (Suc j)) (dop (dop ?c (perm j ?b)) (perm (j + 1) ?a)) ?B =
             vfold (Suc (Suc j)) (dop (dop ?c (perm j ?a)) (perm (j + 1) ?b)) ?B"
    using assms(2) by (simp add: vfold_append min_def)
  then have "dop (dop ?c (perm j ?b)) (perm (j + 1) ?a) = dop (dop ?c (perm j ?a)) (perm (j + 1) ?b)"
    using B c pa pb
      vfold_inj [of ?B "dop (dop ?c (perm j ?b)) (perm (j + 1) ?a)"
                     "dop (dop ?c (perm j ?a)) (perm (j + 1) ?b)" "Suc (Suc j)"]
    by (simp add: dop_digit)
  then have "dop ?c (dop (perm j ?b) (perm (j + 1) ?a)) = dop ?c (dop (perm j ?a) (perm (j + 1) ?b))"
    using c pa pb by (simp add: dop_assoc)
  then have "dop (perm j ?b) (perm (j + 1) ?a) = dop (perm j ?a) (perm (j + 1) ?b)"
    using c pa pb dop_left_cancel [of ?c "dop (perm j ?b) (perm (j + 1) ?a)" "dop (perm j ?a) (perm (j + 1) ?b)"]
    by (simp add: dop_digit)
  then have "?a = ?b"
    using a b transposition [of ?a ?b j] by simp
  with assms(3) show False by simp
qed

lemma digits_ok_update: "digits_ok xs \<Longrightarrow> is_digit v \<Longrightarrow> digits_ok (xs[i := v])"
  using set_update_subset_insert [of xs i v] by (auto simp: digits_ok_def)

lemma digits_ok_nth: "digits_ok xs \<Longrightarrow> i < length xs \<Longrightarrow> is_digit (xs ! i)"
  by (simp add: digits_ok_def)

lemma digits_ok_take: "digits_ok xs \<Longrightarrow> digits_ok (take k xs)"
  by (auto simp: digits_ok_def dest: in_set_takeD)

section \<open>Strings\<close>

text \<open>
  \<open>stringToDigits\<close> in terms of the runes of the string. Decoding a string that holds
  only digits is not changed by what follows it, so appending a digit appends to the
  extracted sequence.
\<close>

lemma runes_Nil [simp]: "runes [] = []"
  by (simp add: runes.simps)

lemma runes_Cons:
  "runes (c0 # cs) = fst (decodeRune (c0 # cs)) # runes (drop (snd (decodeRune (c0 # cs))) (c0 # cs))"
  by (subst runes.simps) (simp add: case_prod_unfold del: decodeRune.simps)

lemma runes_nonempty: "s \<noteq> [] \<Longrightarrow> runes s \<noteq> []"
  by (cases s) (simp_all add: runes_Cons del: decodeRune.simps)

lemma not_IsDigit_RuneError: "\<not> unicode_IsDigit RuneError"
  by (simp add: unicode_IsDigit_def RuneError_def Nd_def)

lemma decodeRune_append:
  assumes "fst (decodeRune (c0 # cs)) \<noteq> RuneError"
  shows "decodeRune ((c0 # cs) @ t) = decodeRune (c0 # cs)"
proof -
  let ?s0 = "of_char c0 :: nat"
  consider "?s0 < 0x80" | "\<not> ?s0 < 0x80" "?s0 < 0xC2 \<or> 0xF4 < ?s0"
    | "\<not> ?s0 < 0x80" "\<not> (?s0 < 0xC2 \<or> 0xF4 < ?s0)" "length (c0 # cs) < first_size ?s0"
    | "\<not> ?s0 < 0x80" "\<not> (?s0 < 0xC2 \<or> 0xF4 < ?s0)" "\<not> length (c0 # cs) < first_size ?s0"
    by blast
  then show ?thesis
  proof cases
    case 1
    then show ?thesis by simp
  next
    case 2
    then show ?thesis using assms by (simp add: Let_def)
  next
    case 3
    then show ?thesis using assms by (simp add: Let_def)
  next
    case 4
    have two: "2 \<le> first_size ?s0" by (rule first_size_ge)
    then have n0: "(cs @ t) ! 0 = cs ! 0" using 4(3) by (cases cs) simp_all
    have n1: "(cs @ t) ! 1 = cs ! 1" if "\<not> first_size ?s0 \<le> 2"
      using that 4(3) by (simp add: nth_append)
    have n2: "(cs @ t) ! 2 = cs ! 2" if "\<not> first_size ?s0 \<le> 3"
      using that 4(3) by (simp add: nth_append)
    have len: "\<not> length ((c0 # cs) @ t) < first_size ?s0" using 4(3) by simp
    show ?thesis
      using 4(1,2) 4(3) len n0 n1 n2
      by (simp add: Let_def del: One_nat_def)
  qed
qed

lemma stringToDigits_loop_runes:
  "stringToDigits_loop s acc =
     (if list_all unicode_IsDigit (runes s) then Inr (acc @ map Atoi_rune (runes s))
      else Inl MalformedInput)"
proof (induction s acc rule: stringToDigits_loop.induct)
  case (1 s digits)
  show ?case
  proof (cases "s = []")
    case True
    then show ?thesis by (subst stringToDigits_loop.simps) simp
  next
    case False
    obtain char width where dr: "decodeRune s = (char, width)" by (cases "decodeRune s")
    have r: "runes s = char # runes (drop width s)"
      using False dr by (subst runes.simps) simp
    show ?thesis
    proof (cases "unicode_IsDigit char")
      case True
      have "stringToDigits_loop s digits = stringToDigits_loop (drop width s) (digits @ [Atoi_rune char])"
        using False dr True by (subst stringToDigits_loop.simps) simp
      then show ?thesis
        using 1 [OF False dr [symmetric]] True r by simp
    next
      case no: False
      have "stringToDigits_loop s digits = Inl MalformedInput"
        using False dr no by (subst stringToDigits_loop.simps) simp
      then show ?thesis using no r by simp
    qed
  qed
qed

lemma stringToDigits_runes:
  "stringToDigits s =
     (if list_all unicode_IsDigit (runes s) then Inr (map Atoi_rune (runes s))
      else Inl MalformedInput)"
  by (simp add: stringToDigits_def stringToDigits_loop_runes runes_Nil)

lemma runes_append:
  "list_all unicode_IsDigit (runes s) \<Longrightarrow> runes (s @ t) = runes s @ runes t"
proof (induction s rule: runes.induct)
  case (1 s)
  show ?case
  proof (cases s)
    case Nil
    then show ?thesis by simp
  next
    case (Cons c0 cs)
    obtain char width where dr: "decodeRune s = (char, width)" by (cases "decodeRune s")
    have ne: "s \<noteq> []" using Cons by simp
    have r: "runes s = char # runes (drop width s)"
      using ne dr by (subst runes.simps) simp
    then have dig: "unicode_IsDigit char" and rest: "list_all unicode_IsDigit (runes (drop width s))"
      using 1(2) by simp_all
    then have "char \<noteq> RuneError" using not_IsDigit_RuneError by auto
    then have dr': "decodeRune (s @ t) = (char, width)"
      using decodeRune_append [of c0 cs t] dr Cons by simp
    have w: "width \<le> length s" using decodeRune_size [OF ne dr] by simp
    have "runes (s @ t) = char # runes (drop width (s @ t))"
      using ne dr' by (subst runes.simps) simp
    also have "drop width (s @ t) = drop width s @ t" using w by simp
    also have "runes (drop width s @ t) = runes (drop width s) @ runes t"
      using 1(1) [OF ne dr [symmetric] rest] .
    finally show ?thesis using r by simp
  qed
qed

lemma runes_ascii: "\<forall>c\<in>set s. (of_char c :: nat) < 0x80 \<Longrightarrow> runes s = map of_char s"
proof (induction s)
  case Nil
  then show ?case by simp
next
  case (Cons c cs)
  then have "decodeRune (c # cs) = (of_char c, 1)" by simp
  then show ?case using Cons by (simp add: runes_Cons del: decodeRune.simps)
qed

lemma Atoi_rune_digit: "is_digit (Atoi_rune r)"
  by (simp add: Atoi_rune_def is_digit_def)

lemma digits_ok_Atoi: "digits_ok (map Atoi_rune rs)"
  by (simp add: digits_ok_def Atoi_rune_digit)

lemma digit_chars:
  "char_of (48 :: nat) = CHR ''0''" "char_of (49 :: nat) = CHR ''1''"
  "char_of (50 :: nat) = CHR ''2''" "char_of (51 :: nat) = CHR ''3''"
  "char_of (52 :: nat) = CHR ''4''" "char_of (53 :: nat) = CHR ''5''"
  "char_of (54 :: nat) = CHR ''6''" "char_of (55 :: nat) = CHR ''7''"
  "char_of (56 :: nat) = CHR ''8''" "char_of (57 :: nat) = CHR ''9''"
  by code_simp+

lemma Itoa_digit: "is_digit g \<Longrightarrow> Itoa g = [char_of (0x30 + nat g)]"
  using nat_digit [of g] by (simp add: Itoa_def is_digit_def formatBits.simps)

lemma runes_Itoa_digit:
  assumes "is_digit g"
  shows "runes (Itoa g) = [0x30 + nat g]"
proof -
  have "(0x30 + nat g) mod 256 = 0x30 + nat g" using nat_digit [OF assms] by simp
  then have "(of_char (char_of (0x30 + nat g)) :: nat) = 0x30 + nat g" by simp
  moreover have "0x30 + nat g < 0x80" using nat_digit [OF assms] by simp
  ultimately show ?thesis
    using assms runes_ascii [of "Itoa g"] by (simp add: Itoa_digit)
qed

lemma digit_rune:
  assumes "is_digit g"
  shows "unicode_IsDigit (0x30 + nat g)" "Atoi_rune (0x30 + nat g) = g"
  using nat_digit [OF assms] by (simp_all add: unicode_IsDigit_def Atoi_rune_def)

lemma stringToDigits_append_digit:
  assumes "stringToDigits s = Inr ds" "is_digit g"
  shows "stringToDigits (s @ Itoa g) = Inr (ds @ [g])"
proof -
  have s: "list_all unicode_IsDigit (runes s)" and ds: "ds = map Atoi_rune (runes s)"
    using assms(1) by (simp_all add: stringToDigits_runes split: if_splits)
  have "runes (s @ Itoa g) = runes s @ [0x30 + nat g]"
    using runes_append [OF s] runes_Itoa_digit [OF assms(2)] by simp
  then show ?thesis
    using s ds digit_rune [OF assms(2)] by (simp add: stringToDigits_runes)
qed

lemma stringToDigits_ok: "stringToDigits s = Inr ds \<Longrightarrow> digits_ok ds"
  by (auto simp: stringToDigits_runes digits_ok_Atoi split: if_splits)

lemma ascii_digits_accepted:
  assumes "\<forall>c\<in>set s. ascii_digit c"
  shows "stringToDigits s = Inr (map (\<lambda>c. int (of_char c) - 0x30) s)"
proof -
  have "\<forall>c\<in>set s. (of_char c :: nat) < 0x80" using assms by (auto simp: ascii_digit_def)
  then have r: "runes s = map of_char s" by (rule runes_ascii)
  have "list_all unicode_IsDigit (runes s)"
    using assms by (auto simp: r list_all_iff unicode_IsDigit_def ascii_digit_def)
  moreover have "map Atoi_rune (runes s) = map (\<lambda>c. int (of_char c) - 0x30) s"
    using assms by (simp add: r Atoi_rune_def ascii_digit_def)
  ultimately show ?thesis by (simp add: stringToDigits_runes)
qed

lemma ascii_digits_runes:
  assumes "\<forall>c\<in>set s. ascii_digit c"
  shows "\<forall>r\<in>set (runes s). unicode_IsDigit r"
proof -
  have "\<forall>c\<in>set s. (of_char c :: nat) < 0x80" using assms by (auto simp: ascii_digit_def)
  then have "runes s = map of_char s" by (rule runes_ascii)
  then show ?thesis using assms by (auto simp: unicode_IsDigit_def ascii_digit_def)
qed

lemma stringToDigits_ascii:
  assumes "\<forall>c\<in>set s. (of_char c :: nat) < 0x80"
  shows "stringToDigits s =
     (if \<forall>c\<in>set s. ascii_digit c then Inr (map (\<lambda>c. int (of_char c) - 0x30) s)
      else Inl MalformedInput)"
proof (cases "\<forall>c\<in>set s. ascii_digit c")
  case True
  then show ?thesis by (simp add: ascii_digits_accepted)
next
  case False
  have r: "runes s = map of_char s" using assms by (rule runes_ascii)
  from False obtain c where c: "c \<in> set s" "\<not> ascii_digit c" by blast
  moreover have "(of_char c :: nat) \<le> 0xFF" using assms c(1) by fastforce
  ultimately have "\<not> unicode_IsDigit (of_char c)"
    by (simp add: unicode_IsDigit_def ascii_digit_def)
  then have "\<not> list_all unicode_IsDigit (runes s)"
    using c(1) by (auto simp: r list_all_iff)
  with False show ?thesis by (simp add: stringToDigits_runes)
qed

lemma stringToDigits_eval:
  "stringToDigits ''12345'' = Inr [1, 2, 3, 4, 5]"
  "stringToDigits ''123451'' = Inr [1, 2, 3, 4, 5, 1]"
  "stringToDigits ''496858245152'' = Inr [4, 9, 6, 8, 5, 8, 2, 4, 5, 1, 5, 2]"
  by (simp_all add: stringToDigits_def stringToDigits_loop.simps unicode_IsDigit_def Atoi_rune_def)

lemma append_then_validate:
  assumes "stringToDigits s = Inr ds"
  shows "\<exists>t. AppendChecksumString s = Inr t \<and> ValidateString t = Inr True"
proof -
  have ok: "digits_ok ds" using assms by (rule stringToDigits_ok)
  then obtain g where g: "calculateChecksum ds = Inr g" "is_digit g"
    using calculateChecksum_total by blast
  have app: "AppendChecksumString s = Inr (s @ Itoa g)"
    using assms g(1) by (simp add: AppendChecksumString_def GenerateFromString_def)
  have "stringToDigits (s @ Itoa g) = Inr (ds @ [g])"
    using assms g(2) by (rule stringToDigits_append_digit)
  then have "ValidateString (s @ Itoa g) = validateChecksum (ds @ [g])"
    by (simp add: ValidateString_def)
  also have "\<dots> = Inr True"
    using validateChecksum_append [OF ok g(2) g(1)] by simp
  finally show ?thesis using app by simp
qed

lemma ValidateAadhaar_eq_ValidateString:
  assumes "length s = 12" "stringToDigits s = Inr ds"
  shows "ValidateAadhaar s = ValidateString s \<and> (\<exists>b. ValidateString s = Inr b)"
proof -
  have ok: "digits_ok ds" using assms(2) by (rule stringToDigits_ok)
  have "s \<noteq> []" using assms(1) by auto
  then have "runes s \<noteq> []" by (rule runes_nonempty)
  then have ne: "ds \<noteq> []"
    using assms(2) by (auto simp: stringToDigits_runes split: if_splits)
  then have ds: "ds = butlast ds @ [last ds]" by simp
  have front: "digits_ok (butlast ds)" and l: "is_digit (last ds)"
    using ok ne by (auto simp: digits_ok_def dest: in_set_butlastD)
  obtain g where g: "calculateChecksum (butlast ds) = Inr g"
    using calculateChecksum_total [OF front] by blast
  have "validateChecksum (butlast ds @ [last ds]) = Inr (last ds = g)"
    using front l g by (rule validateChecksum_append)
  then have v: "ValidateString s = Inr (last ds = g)"
    using assms(2) ne ds by (simp add: ValidateString_def)
  have i: "index ds (int (length ds) - 1) = Inr (last ds)"
    using ne by (simp add: index_def last_conv_nth nat_diff_distrib')
  have t: "slice_to ds (int (length ds) - 1) = Inr (butlast ds)"
    using ne by (simp add: slice_to_def butlast_conv_take nat_diff_distrib')
  have "ValidateAadhaar s = Inr (last ds = g)"
    using assms i t g by (simp add: ValidateAadhaar_def)
  with v show ?thesis by simp
qed

section \<open>Integers\<close>

text \<open>
  On a positive machine integer the two loops of \<^verbatim>\<open>intToDigits\<close> produce its decimal
  digits, which are also the digits that \<^verbatim>\<open>strconv.Itoa\<close> prints. A negative one
  other than \<open>- 2 ^ 63\<close> is negated first; \<open>- 2 ^ 63\<close> is its own negation, no digit
  is counted, and the result is the empty sequence. No machine integer makes the
  filling loop or the checksum index out of range.
\<close>

lemma length_decimal: "0 \<le> n \<Longrightarrow> length (decimal n) = (if n < 10 then 1 else Suc (length (decimal (n div 10))))"
  by (subst decimal.simps) simp

lemma intToDigits_count_decimal:
  "intToDigits_count temp c = (if temp > 0 then c + int (length (decimal temp)) else c)"
proof (induction temp c rule: intToDigits_count.induct)
  case (1 temp count)
  show ?case
  proof (cases "temp > 0")
    case False
    then show ?thesis by (subst intToDigits_count.simps) simp
  next
    case True
    then have d: "temp sdiv 10 = temp div 10" by (simp add: sdiv_10_nonneg)
    have "intToDigits_count temp count = intToDigits_count (temp div 10) (count + 1)"
      using True d by (subst intToDigits_count.simps) simp
    also have "\<dots> = (if temp div 10 > 0 then count + 1 + int (length (decimal (temp div 10))) else count + 1)"
      using 1 [OF True] d by simp
    also have "\<dots> = count + int (length (decimal temp))"
      using True length_decimal [of temp] by auto
    finally show ?thesis using True by simp
  qed
qed

lemma intToDigits_fill_low:
  "0 \<le> n \<Longrightarrow> - 1 \<le> i \<Longrightarrow> i < int (length ds) \<Longrightarrow>
   intToDigits_fill i n ds = Inr (low_digits (nat (i + 1)) n @ drop (nat (i + 1)) ds)"
proof (induction i n ds rule: intToDigits_fill.induct)
  case (1 i n digits)
  show ?case
  proof (cases "i \<ge> 0")
    case False
    with 1(3) have "i = - 1" by simp
    then show ?thesis by (subst intToDigits_fill.simps) simp
  next
    case True
    have dm: "n sdiv 10 = n div 10" "n smod 10 = n mod 10"
      using 1(2) by (simp_all add: sdiv_10_nonneg smod_10_nonneg)
    have n': "0 \<le> n div 10" using 1(2) by simp
    have "intToDigits_fill i n digits = intToDigits_fill (i - 1) (n div 10) (digits[nat i := n mod 10])"
      using True 1(4) dm by (subst intToDigits_fill.simps) simp
    also have "\<dots> = Inr (low_digits (nat (i - 1 + 1)) (n div 10) @ drop (nat (i - 1 + 1)) (digits[nat i := n mod 10]))"
      using 1(1) [OF True 1(4)] dm n' True 1(4) by simp
    also have "drop (nat (i - 1 + 1)) (digits[nat i := n mod 10]) = (n mod 10) # drop (nat (i + 1)) digits"
    proof -
      have "nat i < length digits" using True 1(4) by simp
      then have "drop (nat i) (digits[nat i := n mod 10]) = (n mod 10) # drop (Suc (nat i)) digits"
        by (simp add: drop_update_cancel Cons_nth_drop_Suc [symmetric] upd_conv_take_nth_drop)
      moreover have "nat (i + 1) = Suc (nat i)" using True by simp
      ultimately show ?thesis by simp
    qed
    also have "low_digits (nat (i - 1 + 1)) (n div 10) @ (n mod 10) # drop (nat (i + 1)) digits
         = low_digits (nat (i + 1)) n @ drop (nat (i + 1)) digits"
    proof -
      have "nat (i + 1) = Suc (nat i)" using True by simp
      then show ?thesis by simp
    qed
    finally show ?thesis .
  qed
qed

lemma low_digits_decimal: "0 \<le> n \<Longrightarrow> low_digits (length (decimal n)) n = decimal n"
proof (induction n rule: decimal.induct)
  case (1 n)
  show ?case
  proof (cases "n < 10")
    case True
    then have "decimal n = [n]" by (subst decimal.simps) simp
    then show ?thesis using True 1(2) by simp
  next
    case False
    then have d: "decimal n = decimal (n div 10) @ [n mod 10]" by (subst decimal.simps) simp
    have "0 \<le> n div 10" using 1(2) by simp
    then have "low_digits (length (decimal (n div 10))) (n div 10) = decimal (n div 10)"
      using 1(1) [OF False] by simp
    then show ?thesis using d by simp
  qed
qed

lemma fill_decimal:
  assumes "0 < n"
  shows "intToDigits_fill (intToDigits_count n 0 - 1) n (replicate (nat (intToDigits_count n 0)) 0)
         = Inr (decimal n)"
proof -
  let ?k = "length (decimal n)"
  have c: "intToDigits_count n 0 = int ?k" using assms by (simp add: intToDigits_count_decimal)
  have "intToDigits_fill (int ?k - 1) n (replicate ?k 0)
      = Inr (low_digits (nat (int ?k - 1 + 1)) n @ drop (nat (int ?k - 1 + 1)) (replicate ?k 0))"
    using assms by (intro intToDigits_fill_low) simp_all
  then show ?thesis using c assms by (simp add: low_digits_decimal)
qed

lemma intToDigits_pos: "0 < n \<Longrightarrow> intToDigits n = Inr (decimal n)"
  using fill_decimal [of n] by (simp add: intToDigits_def Let_def)

lemma intToDigits_nonneg: "0 \<le> n \<Longrightarrow> intToDigits n = Inr (decimal n)"
  using intToDigits_pos [of n] by (cases "n = 0") (simp_all add: intToDigits_def decimal.simps)

lemma wrap64_neg: "- (2 ^ 63) < n \<Longrightarrow> n < 0 \<Longrightarrow> wrap64 (- n) = - n"
  by (simp add: wrap64_def)

lemma intToDigits_neg: "- (2 ^ 63) < n \<Longrightarrow> n < 0 \<Longrightarrow> intToDigits n = Inr (decimal (- n))"
  using fill_decimal [of "- n"] by (simp add: intToDigits_def Let_def wrap64_neg)

lemma intToDigits_min: "intToDigits (- (2 ^ 63)) = Inr []"
  by (simp add: intToDigits_def Let_def wrap64_def intToDigits_count.simps intToDigits_fill.simps)

lemma decimal_ok: "0 \<le> n \<Longrightarrow> digits_ok (decimal n)"
proof (induction n rule: decimal.induct)
  case (1 n)
  show ?case
  proof (cases "n < 10")
    case True
    then have "decimal n = [n]" by (subst decimal.simps) simp
    then show ?thesis using True 1(2) by (simp add: digits_ok_def is_digit_def)
  next
    case False
    then have d: "decimal n = decimal (n div 10) @ [n mod 10]" by (subst decimal.simps) simp
    have "0 \<le> n div 10" using 1(2) by simp
    then have "digits_ok (decimal (n div 10))" using 1(1) [OF False] by simp
    then show ?thesis using d by (simp add: digits_ok_def is_digit_def)
  qed
qed

lemma formatBits_decimal: "formatBits u = map (\<lambda>d. char_of (0x30 + nat d)) (decimal (int u))"
proof (induction u rule: formatBits.induct)
  case (1 u)
  show ?case
  proof (cases "u < 10")
    case True
    then have "decimal (int u) = [int u]" by (subst decimal.simps) simp
    then show ?thesis using True by (subst formatBits.simps) simp
  next
    case False
    then have d: "decimal (int u) = decimal (int u div 10) @ [int u mod 10]"
      by (subst decimal.simps) simp
    have "int u div 10 = int (u div 10)" "nat (int u mod 10) = u mod 10"
      by (simp_all add: zdiv_int nat_mod_distrib)
    then show ?thesis using False 1 [OF False] d by (subst formatBits.simps) simp
  qed
qed

lemma stringToDigits_digit_chars:
  assumes "digits_ok ds"
  shows "stringToDigits (map (\<lambda>d. char_of (0x30 + nat d)) ds) = Inr ds"
proof -
  let ?s = "map (\<lambda>d. char_of (0x30 + nat d)) ds"
  have c: "(of_char (char_of (0x30 + nat x)) :: nat) = 0x30 + nat x" if "x \<in> set ds" for x
  proof -
    have "is_digit x" using assms that by (simp add: digits_ok_def)
    then have "(0x30 + nat x) mod 256 = 0x30 + nat x" using nat_digit [of x] by simp
    then show ?thesis by simp
  qed
  have "\<forall>c\<in>set ?s. (of_char c :: nat) < 0x80"
  proof
    fix ch assume "ch \<in> set ?s"
    then obtain x where x: "x \<in> set ds" "ch = char_of (0x30 + nat x)" by auto
    then have "is_digit x" using assms by (simp add: digits_ok_def)
    then show "(of_char ch :: nat) < 0x80" using c [OF x(1)] x(2) nat_digit [of x] by simp
  qed
  then have "runes ?s = map of_char ?s" by (rule runes_ascii)
  also have "\<dots> = map (\<lambda>d. 0x30 + nat d) ds" using c by simp
  finally have r: "runes ?s = map (\<lambda>d. 0x30 + nat d) ds" .
  have "list_all unicode_IsDigit (runes ?s)"
    using assms digit_rune(1) by (simp add: r list_all_iff digits_ok_def)
  moreover have "map Atoi_rune (runes ?s) = ds"
    using assms digit_rune(2) by (simp add: r digits_ok_def map_idI)
  ultimately show ?thesis by (simp add: stringToDigits_runes)
qed

lemma stringToDigits_Itoa: "0 \<le> n \<Longrightarrow> stringToDigits (Itoa n) = Inr (decimal n)"
  using stringToDigits_digit_chars [OF decimal_ok, of n]
  by (simp add: Itoa_def formatBits_decimal)

lemma append_int_then_validate:
  assumes "0 \<le> n"
  shows "\<exists>t. AppendChecksumInt n = Inr t \<and> ValidateString t = Inr True"
proof -
  have ok: "digits_ok (decimal n)" using assms by (rule decimal_ok)
  then obtain g where g: "calculateChecksum (decimal n) = Inr g" "is_digit g"
    using calculateChecksum_total by blast
  have app: "AppendChecksumInt n = Inr (Itoa n @ Itoa g)"
    using assms g(1) by (simp add: AppendChecksumInt_def GenerateInt_def intToDigits_nonneg)
  have "stringToDigits (Itoa n @ Itoa g) = Inr (decimal n @ [g])"
    using stringToDigits_Itoa [OF assms] g(2) by (rule stringToDigits_append_digit)
  then have "ValidateString (Itoa n @ Itoa g) = validateChecksum (decimal n @ [g])"
    by (simp add: ValidateString_def)
  also have "\<dots> = Inr True"
    using validateChecksum_append [OF ok g(2) g(1)] by simp
  finally show ?thesis using app by simp
qed

lemma intToDigits_total:
  assumes "- (2 ^ 63) \<le> n" and "n < 2 ^ 63"
  shows "\<exists>ds. intToDigits n = Inr ds \<and> digits_ok ds"
proof -
  consider "0 \<le> n" | "- (2 ^ 63) < n" "n < 0" | "n = - (2 ^ 63)"
    using assms(1) by linarith
  then show ?thesis
  proof cases
    case 1
    then show ?thesis by (simp add: intToDigits_nonneg decimal_ok)
  next
    case 2
    then show ?thesis by (simp add: intToDigits_neg decimal_ok)
  next
    case 3
    have "digits_ok []" by (simp add: digits_ok_def)
    then show ?thesis unfolding 3 using intToDigits_min by blast
  qed
qed

lemma GenerateInt_total:
  assumes "- (2 ^ 63) \<le> n" and "n < 2 ^ 63"
  shows "\<exists>g. GenerateInt n = Inr g \<and> is_digit g"
proof -
  obtain ds where "intToDigits n = Inr ds" "digits_ok ds"
    using intToDigits_total [OF assms] by blast
  then show ?thesis
    using calculateChecksum_total [of ds] by (simp add: GenerateInt_def)
qed

lemma GenerateInt_negative:
  assumes "- (2 ^ 63) < n" and "n < 0"
  shows "GenerateInt n = GenerateInt (- n)" and "GenerateInt n = calculateChecksum (decimal (- n))"
    and "GenerateInt64 n = GenerateInt64 (- n)" and "GenerateInt64 n = calculateChecksum (decimal (- n))"
proof -
  have a: "intToDigits n = Inr (decimal (- n))" using assms by (rule intToDigits_neg)
  have b: "intToDigits (- n) = Inr (decimal (- n))" using assms(2) by (simp add: intToDigits_pos)
  have e: "int64ToDigits n = intToDigits n" "int64ToDigits (- n) = intToDigits (- n)"
    by (simp_all add: int64ToDigits_def intToDigits_def)
  show "GenerateInt n = GenerateInt (- n)" "GenerateInt n = calculateChecksum (decimal (- n))"
    "GenerateInt64 n = GenerateInt64 (- n)" "GenerateInt64 n = calculateChecksum (decimal (- n))"
    using a b e by (simp_all add: GenerateInt_def GenerateInt64_def)
qed

section \<open>The claims\<close>

text \<open>
  C1. For every digit sequence \<open>D\<close> (each element between 0 and 9, possibly empty),
  \<open>calculateChecksum\<close> returns \<open>inv[c]\<close>, where \<open>c\<close> starts at 0 and is folded over
  \<open>R = reverse(D)\<close> by \<open>c = d[c][p[(i+1) mod 8][R[i]]]\<close> for \<open>i\<close> from 0 to
  \<open>L - 1\<close>; the result is a single digit between 0 and 9.
\<close>

theorem calculateChecksum_refines_spec:
  "\<forall>x\<in>set D. 0 \<le> x \<and> x \<le> 9 \<Longrightarrow>
   calculateChecksum D = Inr (spec_generate D) \<and> 0 \<le> spec_generate D \<and> spec_generate D \<le> 9"
proof -
  assume "\<forall>x\<in>set D. 0 \<le> x \<and> x \<le> 9"
  then have D: "digits_ok D" by (simp add: digits_ok_def is_digit_def)
  have "is_digit 0" by (simp add: is_digit_def)
  then have "is_digit (vfold 1 0 (rev D))"
    using D by (simp add: vfold_digit digits_ok_rev)
  then have "is_digit (inv_table ! nat (vfold 1 0 (rev D)))"
    using digits_all [OF d_inv_tab] by blast
  then show ?thesis
    using calculateChecksum_vfold [OF D] by (simp add: spec_generate_vfold is_digit_def)
qed

theorem calculateChecksum_refines_spec_witness:
  "calculateChecksum [2, 3, 6] = Inr (spec_generate [2, 3, 6]) \<and>
   0 \<le> spec_generate [2, 3, 6] \<and> spec_generate [2, 3, 6] \<le> 9 \<and>
   calculateChecksum [2, 3, 6] = Inr 3"
proof -
  have h: "\<forall>x\<in>set [2, 3, 6 :: int]. 0 \<le> x \<and> x \<le> 9" by simp
  have v: "calculateChecksum [2, 3, 6] = Inr 3" by code_simp
  show ?thesis
    using v calculateChecksum_refines_spec [OF h] by simp
qed

text \<open>
  C2. For every non-empty digit sequence \<open>D\<close>, \<open>validateChecksum\<close> returns true if
  and only if the fold \<open>c = d[c][p[i mod 8][R[i]]]\<close> over \<open>R = reverse(D)\<close>, started
  at \<open>c = 0\<close> and with no offset in the row index, ends with \<open>c = 0\<close>.
\<close>

theorem validateChecksum_refines_spec:
  "D \<noteq> [] \<Longrightarrow> \<forall>x\<in>set D. 0 \<le> x \<and> x \<le> 9 \<Longrightarrow>
   validateChecksum D = Inr (spec_validate D)"
  using validateChecksum_vfold [of D]
  by (simp add: spec_validate_vfold digits_ok_def is_digit_def)

theorem validateChecksum_refines_spec_witness:
  "validateChecksum [2, 3, 6, 3] = Inr (spec_validate [2, 3, 6, 3]) \<and>
   validateChecksum [2, 3, 6, 3] = Inr True"
proof -
  have h1: "[2, 3, 6, 3 :: int] \<noteq> []" by simp
  have h2: "\<forall>x\<in>set [2, 3, 6, 3 :: int]. 0 \<le> x \<and> x \<le> 9" by simp
  have v: "validateChecksum [2, 3, 6, 3] = Inr True" by code_simp
  show ?thesis
    using v validateChecksum_refines_spec [OF h1 h2] by simp
qed

text \<open>
  C3. Round trip: for every string \<open>s\<close> of decimal digit characters (the empty string
  included) and every non-negative machine integer \<open>n\<close>, appending the generated check
  digit succeeds and the result validates:
  \<open>ValidateString (AppendChecksumString s)\<close> and \<open>ValidateString (AppendChecksumInt n)\<close>
  are true. The strings are those whose every rune passes \<^verbatim>\<open>unicode.IsDigit\<close>;
  by \<open>ascii_digits_runes\<close> the strings of the characters \<^verbatim>\<open>'0'\<close> to \<^verbatim>\<open>'9'\<close>
  are among them.
\<close>

theorem roundtrip_append_validate:
  assumes "\<forall>r\<in>set (runes s). unicode_IsDigit r" and "0 \<le> n" and "n < 2 ^ 63"
  shows "(\<exists>t. AppendChecksumString s = Inr t \<and> ValidateString t = Inr True) \<and>
         (\<exists>t. AppendChecksumInt n = Inr t \<and> ValidateString t = Inr True)"
proof -
  have "stringToDigits s = Inr (map Atoi_rune (runes s))"
    using assms(1) by (simp add: stringToDigits_runes list_all_iff)
  then have "\<exists>t. AppendChecksumString s = Inr t \<and> ValidateString t = Inr True"
    by (rule append_then_validate)
  moreover have "\<exists>t. AppendChecksumInt n = Inr t \<and> ValidateString t = Inr True"
    using assms(2) by (rule append_int_then_validate)
  ultimately show ?thesis by simp
qed

theorem roundtrip_append_validate_witness:
  "AppendChecksumString ''12345'' = Inr ''123451'' \<and> AppendChecksumInt 12345 = Inr ''123451'' \<and>
   ValidateString ''123451'' = Inr True"
proof -
  have r: "runes ''12345'' = [0x31, 0x32, 0x33, 0x34, 0x35]"
    by (simp add: runes_ascii)
  have h1: "\<forall>r\<in>set (runes ''12345''). unicode_IsDigit r"
    by (simp add: r unicode_IsDigit_def)
  have h2: "(0 :: int) \<le> 12345" and h3: "(12345 :: int) < 2 ^ 63" by simp_all
  have c: "calculateChecksum [1, 2, 3, 4, 5] = Inr 1" by code_simp
  have i: "Itoa 1 = ''1''" "Itoa 12345 = ''12345''"
    by (simp_all add: Itoa_def formatBits.simps digit_chars)
  have a: "AppendChecksumString ''12345'' = Inr ''123451''"
    by (simp add: AppendChecksumString_def GenerateFromString_def stringToDigits_eval c i)
  have d: "intToDigits 12345 = Inr [1, 2, 3, 4, 5]"
    by (simp add: intToDigits_nonneg decimal.simps)
  have b: "AppendChecksumInt 12345 = Inr ''123451''"
    by (simp add: AppendChecksumInt_def GenerateInt_def d c i)
  show ?thesis
    using roundtrip_append_validate [OF h1 h2 h3] a b by simp
qed

text \<open>
  C4. Single-digit-error detection: for every digit sequence \<open>s\<close> with its generated
  check digit \<open>g\<close> appended, for every position \<open>i\<close> of \<open>s @ [g]\<close> and every digit
  \<open>v\<close> other than the one at \<open>i\<close>, validation of the sequence with \<open>v\<close> at \<open>i\<close>
  returns false.
\<close>

theorem single_digit_error_detected:
  assumes "\<forall>x\<in>set s. 0 \<le> x \<and> x \<le> 9"
    and "calculateChecksum s = Inr g"
    and "i < length (s @ [g])"
    and "0 \<le> v \<and> v \<le> 9"
    and "v \<noteq> (s @ [g]) ! i"
  shows "validateChecksum ((s @ [g])[i := v]) = Inr False"
proof -
  let ?full = "s @ [g]"
  let ?R = "rev ?full"
  let ?j = "length ?full - i - 1"
  have s: "digits_ok s" using assms(1) by (simp add: digits_ok_def is_digit_def)
  have v: "is_digit v" using assms(4) by (simp add: is_digit_def)
  have ok: "digits_ok ?full" and zero: "vfold 0 0 ?R = 0"
    using full_valid [OF s assms(2)] by simp_all
  have j: "?j < length ?R" using assms(3) by simp
  have "length ?full - Suc ?j = i" using assms(3) by simp
  then have "?R ! ?j = ?full ! i" using j by (simp add: rev_nth del: rev_append)
  then have ne: "v \<noteq> ?R ! ?j" using assms(5) by simp
  have R: "digits_ok ?R" using ok by (simp only: digits_ok_rev)
  have "vfold 0 0 (?R[?j := v]) \<noteq> 0"
    using vfold_single_change [OF R j v ne] zero by simp
  moreover have "rev (?full[i := v]) = ?R[?j := v]"
    using assms(3) by (rule rev_update)
  moreover have "digits_ok (?full[i := v])" "?full[i := v] \<noteq> []"
    using ok v by (simp_all add: digits_ok_update)
  ultimately show ?thesis
    by (simp add: validateChecksum_vfold del: rev_append)
qed

theorem single_digit_error_detected_witness:
  "validateChecksum (([2, 3, 6] @ [3])[1 := 7]) = Inr False"
proof -
  have h1: "\<forall>x\<in>set [2, 3, 6 :: int]. 0 \<le> x \<and> x \<le> 9" by simp
  have h2: "calculateChecksum [2, 3, 6] = Inr 3" by code_simp
  have h3: "1 < length ([2, 3, 6] @ [3 :: int])" by simp
  have h4: "0 \<le> (7 :: int) \<and> (7 :: int) \<le> 9" by simp
  have h5: "(7 :: int) \<noteq> ([2, 3, 6] @ [3]) ! 1" by simp
  show ?thesis
    using single_digit_error_detected [OF h1 h2 h3 h4 h5] .
qed

text \<open>
  C5. Adjacent-transposition detection: for every digit sequence \<open>s\<close> with its generated
  check digit \<open>g\<close> appended, and every pair of adjacent positions \<open>i\<close>, \<open>i + 1\<close> of
  \<open>s @ [g]\<close> that hold different digits, validation of the sequence with the two
  digits swapped returns false.
\<close>

theorem adjacent_transposition_detected:
  assumes "\<forall>x\<in>set s. 0 \<le> x \<and> x \<le> 9"
    and "calculateChecksum s = Inr g"
    and "Suc i < length (s @ [g])"
    and "(s @ [g]) ! i \<noteq> (s @ [g]) ! Suc i"
  shows "validateChecksum ((s @ [g])[i := (s @ [g]) ! Suc i, Suc i := (s @ [g]) ! i]) = Inr False"
proof -
  let ?full = "s @ [g]"
  let ?R = "rev ?full"
  let ?j = "length ?full - Suc i - 1"
  let ?swapped = "?full[i := ?full ! Suc i, Suc i := ?full ! i]"
  have s: "digits_ok s" using assms(1) by (simp add: digits_ok_def is_digit_def)
  have ok: "digits_ok ?full" and zero: "vfold 0 0 ?R = 0"
    using full_valid [OF s assms(2)] by simp_all
  have j: "Suc ?j < length ?R" using assms(3) by simp
  have sj: "Suc ?j = length ?full - i - 1" using assms(3) by simp
  have "length ?full - Suc ?j = Suc i" "length ?full - Suc (Suc ?j) = i" using assms(3) by simp_all
  then have nth: "?R ! ?j = ?full ! Suc i" "?R ! Suc ?j = ?full ! i"
    using j by (simp_all add: rev_nth del: rev_append)
  have ne: "?R ! ?j \<noteq> ?R ! Suc ?j" using assms(4) nth by simp
  have R: "digits_ok ?R" using ok by (simp only: digits_ok_rev)
  have "rev ?swapped = (rev (?full[i := ?full ! Suc i]))[?j := ?full ! i]"
    using assms(3) by (simp add: rev_update del: rev_append)
  also have "\<dots> = ?R[Suc ?j := ?full ! Suc i, ?j := ?full ! i]"
    using assms(3) sj by (simp add: rev_update del: rev_append)
  also have "\<dots> = ?R[?j := ?R ! Suc ?j, Suc ?j := ?R ! ?j]"
    using nth by (simp add: list_update_swap del: rev_append)
  finally have rev: "rev ?swapped = ?R[?j := ?R ! Suc ?j, Suc ?j := ?R ! ?j]" .
  have "vfold 0 0 (rev ?swapped) \<noteq> 0"
    using vfold_adjacent_swap [OF R j ne] zero rev by simp
  moreover have "digits_ok ?swapped" "?swapped \<noteq> []"
    using ok assms(3) digits_ok_nth [OF ok, of i] digits_ok_nth [OF ok, of "Suc i"]
    by (simp_all add: digits_ok_update del: nth_append_length)
  ultimately show ?thesis
    by (simp add: validateChecksum_vfold del: rev_append)
qed

theorem adjacent_transposition_detected_witness:
  "validateChecksum (([2, 3, 6] @ [3])[2 := ([2, 3, 6] @ [3]) ! Suc 2,
      Suc 2 := ([2, 3, 6] @ [3]) ! 2]) = Inr False"
proof -
  have h1: "\<forall>x\<in>set [2, 3, 6 :: int]. 0 \<le> x \<and> x \<le> 9" by simp
  have h2: "calculateChecksum [2, 3, 6] = Inr 3" by code_simp
  have h3: "Suc 2 < length ([2, 3, 6] @ [3 :: int])" by simp
  have h4: "([2, 3, 6] @ [3 :: int]) ! 2 \<noteq> ([2, 3, 6] @ [3]) ! Suc 2" by simp
  show ?thesis
    using adjacent_transposition_detected [OF h1 h2 h3 h4] .
qed

text \<open>
  C6. Digit extraction from text: \<open>stringToDigits\<close> fails with the malformed-input
  error if and only if some character of the string is not a decimal digit, and
  otherwise produces the numeric value of each character in order, only the digits
  0 to 9 being in scope.

  As stated this fails on the string of the one character U+0663 (ARABIC-INDIC DIGIT
  THREE, the bytes \<^verbatim>\<open>D9 A3\<close>): it is not one of the digits 0 to 9, yet
  \<^verbatim>\<open>unicode.IsDigit\<close> accepts it, and the result is the sequence \<open>[0]\<close>, which is not
  its numeric value either.
\<close>

theorem stringToDigits_non_ascii_digit_accepted:
  "\<not> ascii_digit (CHR 0xD9) \<and> runes [CHR 0xD9, CHR 0xA3] = [0x663] \<and>
   stringToDigits [CHR 0xD9, CHR 0xA3] = Inr [0]"
  by (simp add: ascii_digit_def runes_Cons stringToDigits_def stringToDigits_loop.simps
      unicode_IsDigit_def Nd_def Atoi_rune_def first_size_def accept_lo_def accept_hi_def)

text \<open>
  C6, amended. \<open>stringToDigits\<close> fails with the malformed-input error if and only if
  some rune of the string is not a decimal digit in the sense of \<^verbatim>\<open>unicode.IsDigit\<close>;
  otherwise it produces one element per rune, in order, and the element at the position
  of a character \<^verbatim>\<open>'0'\<close> to \<^verbatim>\<open>'9'\<close> is its numeric value; in particular a
  string of such characters only yields the sequence of their values. (What a digit
  outside \<^verbatim>\<open>'0'\<close> to \<^verbatim>\<open>'9'\<close> is converted to is left open.)
\<close>

theorem stringToDigits_digits:
  "(stringToDigits s = Inl MalformedInput \<longleftrightarrow> (\<exists>r\<in>set (runes s). \<not> unicode_IsDigit r)) \<and>
   ((\<forall>r\<in>set (runes s). unicode_IsDigit r) \<longrightarrow>
      (\<exists>ds. stringToDigits s = Inr ds \<and> length ds = length (runes s) \<and>
         (\<forall>i<length ds. 0x30 \<le> runes s ! i \<and> runes s ! i \<le> 0x39 \<longrightarrow>
            ds ! i = int (runes s ! i) - 0x30))) \<and>
   ((\<forall>c\<in>set s. ascii_digit c) \<longrightarrow>
      stringToDigits s = Inr (map (\<lambda>c. int (of_char c) - 0x30) s))"
proof (intro conjI impI)
  show "stringToDigits s = Inl MalformedInput \<longleftrightarrow> (\<exists>r\<in>set (runes s). \<not> unicode_IsDigit r)"
    by (auto simp: stringToDigits_runes list_all_iff)
next
  assume all: "\<forall>r\<in>set (runes s). unicode_IsDigit r"
  then have sd: "stringToDigits s = Inr (map Atoi_rune (runes s))"
    by (simp add: stringToDigits_runes list_all_iff)
  have "\<forall>i<length (runes s). 0x30 \<le> runes s ! i \<and> runes s ! i \<le> 0x39 \<longrightarrow>
      map Atoi_rune (runes s) ! i = int (runes s ! i) - 0x30"
    by (simp add: Atoi_rune_def)
  with sd show "\<exists>ds. stringToDigits s = Inr ds \<and> length ds = length (runes s) \<and>
         (\<forall>i<length ds. 0x30 \<le> runes s ! i \<and> runes s ! i \<le> 0x39 \<longrightarrow>
            ds ! i = int (runes s ! i) - 0x30)"
    by simp
next
  assume "\<forall>c\<in>set s. ascii_digit c"
  then show "stringToDigits s = Inr (map (\<lambda>c. int (of_char c) - 0x30) s)"
    by (rule ascii_digits_accepted)
qed

theorem stringToDigits_digits_witness:
  "stringToDigits ''2363'' = Inr [2, 3, 6, 3] \<and> stringToDigits ''23a3'' = Inl MalformedInput"
proof -
  have h: "\<forall>c\<in>set ''2363''. ascii_digit c" by (simp add: ascii_digit_def)
  have r: "runes ''23a3'' = [0x32, 0x33, 0x61, 0x33]" by (simp add: runes_ascii)
  have n: "\<exists>r\<in>set (runes ''23a3''). \<not> unicode_IsDigit r"
    by (simp add: r unicode_IsDigit_def)
  show ?thesis
    using stringToDigits_digits [of "''2363''"] stringToDigits_digits [of "''23a3''"] h n
    by simp
qed

text \<open>
  C7. Fixed-length validation delegates to general validation: for every string \<open>s\<close> of
  exactly 12 decimal digit characters (\<^verbatim>\<open>'0'\<close> to \<^verbatim>\<open>'9'\<close>), \<open>ValidateAadhaar s\<close>
  returns, without error, the same boolean as \<open>ValidateString s\<close>: comparing the last
  digit with \<open>calculateChecksum\<close> of the first 11 is the same as running the validation
  fold over all 12.
\<close>

theorem ValidateAadhaar_delegates:
  assumes "length s = 12" and "\<forall>c\<in>set s. ascii_digit c"
  shows "ValidateAadhaar s = ValidateString s \<and>
         (\<exists>ds g. stringToDigits s = Inr ds \<and> length ds = 12 \<and>
                  calculateChecksum (take 11 ds) = Inr g \<and>
                  ValidateAadhaar s = Inr (ds ! 11 = g) \<and>
                  validateChecksum ds = Inr (ds ! 11 = g))"
proof -
  let ?ds = "map (\<lambda>c. int (of_char c) - 0x30) s"
  have sd: "stringToDigits s = Inr ?ds" using assms(2) by (rule ascii_digits_accepted)
  have len: "length ?ds = 12" using assms(1) by simp
  have eq: "ValidateAadhaar s = ValidateString s" and "\<exists>b. ValidateString s = Inr b"
    using ValidateAadhaar_eq_ValidateString [OF assms(1) sd] by simp_all
  have ok: "digits_ok ?ds" using sd by (rule stringToDigits_ok)
  then have "digits_ok (take 11 ?ds)" by (rule digits_ok_take)
  then obtain g where g: "calculateChecksum (take 11 ?ds) = Inr g"
    using calculateChecksum_total by blast
  have i: "index ?ds (int (length ?ds) - 1) = Inr (?ds ! 11)"
    by (simp only: len) (simp add: index_def assms(1))
  have t: "slice_to ?ds (int (length ?ds) - 1) = Inr (take 11 ?ds)"
    by (simp only: len) (simp add: slice_to_def assms(1))
  have va: "ValidateAadhaar s = Inr (?ds ! 11 = g)"
    using assms(1) sd i t g by (simp add: ValidateAadhaar_def)
  have "ValidateString s = validateChecksum ?ds"
    using sd len by (simp add: ValidateString_def del: length_map)
  then have "validateChecksum ?ds = Inr (?ds ! 11 = g)" using va eq by simp
  with eq sd len g va show ?thesis by blast
qed

theorem ValidateAadhaar_delegates_witness:
  "ValidateAadhaar ''496858245152'' = ValidateString ''496858245152'' \<and>
   ValidateString ''496858245152'' = Inr True"
proof -
  have h1: "length ''496858245152'' = 12" by simp
  have h2: "\<forall>c\<in>set ''496858245152''. ascii_digit c" by (simp add: ascii_digit_def)
  have v: "validateChecksum [4, 9, 6, 8, 5, 8, 2, 4, 5, 1, 5, 2] = Inr True" by code_simp
  have "ValidateString ''496858245152'' = Inr True"
    by (simp add: ValidateString_def stringToDigits_eval v)
  then show ?thesis
    using ValidateAadhaar_delegates [OF h1 h2] by simp
qed

text \<open>
  C8. Empty input: generation on the empty string succeeds with the digit 0, while
  validation of the empty string and of the empty slice fail with the empty-input error.
\<close>

theorem empty_input_contract:
  "GenerateFromString '''' = Inr 0 \<and> ValidateString '''' = Inl EmptyInput \<and>
   ValidateSlice [] = Inl EmptyInput"
proof -
  have "calculateChecksum [] = Inr 0" by code_simp
  then show ?thesis
    by (simp add: GenerateFromString_def ValidateString_def ValidateSlice_def
        stringToDigits_def sliceToDigits_def)
qed

text \<open>
  C9. Length enforcement: for every input string whose length in digit characters is
  not exactly 12, \<open>ValidateAadhaar\<close> fails with the wrong-length error, whatever the
  content.

  As stated this fails: the test is on the number of bytes. The string of five times
  U+0660 (ARABIC-INDIC DIGIT ZERO, two bytes each) followed by \<^verbatim>\<open>06\<close> has 12 bytes and
  7 characters, all of them digits for \<^verbatim>\<open>unicode.IsDigit\<close>, and \<open>ValidateAadhaar\<close>
  returns true on it. The string \<^verbatim>\<open>4968582451\<close> followed by U+00E9 (two bytes) has 12
  bytes and 11 characters, and the error is the one for non-digits.
\<close>

theorem ValidateAadhaar_byte_count:
  "length [CHR 0xD9, CHR 0xA0, CHR 0xD9, CHR 0xA0, CHR 0xD9, CHR 0xA0, CHR 0xD9, CHR 0xA0,
           CHR 0xD9, CHR 0xA0, CHR ''0'', CHR ''6''] = 12 \<and>
   runes [CHR 0xD9, CHR 0xA0, CHR 0xD9, CHR 0xA0, CHR 0xD9, CHR 0xA0, CHR 0xD9, CHR 0xA0,
          CHR 0xD9, CHR 0xA0, CHR ''0'', CHR ''6''] =
     [0x660, 0x660, 0x660, 0x660, 0x660, 0x30, 0x36] \<and>
   ValidateAadhaar [CHR 0xD9, CHR 0xA0, CHR 0xD9, CHR 0xA0, CHR 0xD9, CHR 0xA0, CHR 0xD9, CHR 0xA0,
          CHR 0xD9, CHR 0xA0, CHR ''0'', CHR ''6''] = Inr True \<and>
   length (''4968582451'' @ [CHR 0xC3, CHR 0xA9]) = 12 \<and>
   length (runes (''4968582451'' @ [CHR 0xC3, CHR 0xA9])) = 11 \<and>
   ValidateAadhaar (''4968582451'' @ [CHR 0xC3, CHR 0xA9]) = Inl AadhaarNotNumbers"
proof -
  let ?s = "[CHR 0xD9, CHR 0xA0, CHR 0xD9, CHR 0xA0, CHR 0xD9, CHR 0xA0, CHR 0xD9, CHR 0xA0,
           CHR 0xD9, CHR 0xA0, CHR ''0'', CHR ''6'']"
  let ?t = "''4968582451'' @ [CHR 0xC3, CHR 0xA9]"
  have r: "runes ?s = [0x660, 0x660, 0x660, 0x660, 0x660, 0x30, 0x36]"
    by (simp add: runes_Cons first_size_def accept_lo_def accept_hi_def)
  have sd: "stringToDigits ?s = Inr [0, 0, 0, 0, 0, 0, 6]"
    unfolding stringToDigits_runes r by (simp add: unicode_IsDigit_def Nd_def Atoi_rune_def)
  have c: "calculateChecksum [0, 0, 0, 0, 0, 0] = Inr 6" by code_simp
  have v: "ValidateAadhaar ?s = Inr True"
    unfolding ValidateAadhaar_def sd by (simp add: index_def slice_to_def c)
  have rt: "runes ?t = [0x34, 0x39, 0x36, 0x38, 0x35, 0x38, 0x32, 0x34, 0x35, 0x31, 0xE9]"
    by (simp add: runes_Cons first_size_def accept_lo_def accept_hi_def)
  have st: "stringToDigits ?t = Inl MalformedInput"
    unfolding stringToDigits_runes rt by (simp add: unicode_IsDigit_def)
  have vt: "ValidateAadhaar ?t = Inl AadhaarNotNumbers"
    unfolding ValidateAadhaar_def st by simp
  show ?thesis using r v rt vt by simp
qed

text \<open>
  C9, amended. For every input string whose length in bytes is not exactly 12,
  \<open>ValidateAadhaar\<close> fails with the wrong-length error, whatever the content and before
  any digit is extracted; the length in bytes of a string of ASCII characters is its
  number of characters.
\<close>

theorem ValidateAadhaar_byte_length:
  "(length s \<noteq> 12 \<longrightarrow> ValidateAadhaar s = Inl WrongLength) \<and>
   ((\<forall>c\<in>set s. (of_char c :: nat) < 0x80) \<longrightarrow> length (runes s) = length s)"
  by (simp add: ValidateAadhaar_def runes_ascii)

theorem ValidateAadhaar_byte_length_witness:
  "ValidateAadhaar ''12345'' = Inl WrongLength \<and> length (runes ''12345'') = 5"
  using ValidateAadhaar_byte_length [of "''12345''"] by simp

text \<open>
  C10. Negative integers: for every negative machine integer \<open>n\<close>, digit extraction
  takes the absolute value first, so that \<open>GenerateInt n\<close> is the checksum of the decimal
  digits of \<open>\<bar>n\<bar>\<close>, and likewise \<open>GenerateInt64\<close>.

  By \<open>GenerateInt_negative\<close> this holds of every negative \<open>n\<close> above \<open>- 2 ^ 63\<close>. At
  \<open>n = - 2 ^ 63\<close> the negation wraps around to \<open>n\<close> itself: no digit is extracted and
  the result is 0, the checksum of the empty sequence, while the checksum of the digits
  of \<open>2 ^ 63\<close> is 8.
\<close>

theorem GenerateInt_minimum:
  "intToDigits (- (2 ^ 63)) = Inr [] \<and> GenerateInt (- (2 ^ 63)) = Inr 0 \<and>
   int64ToDigits (- (2 ^ 63)) = Inr [] \<and> GenerateInt64 (- (2 ^ 63)) = Inr 0 \<and>
   decimal (2 ^ 63) = [9, 2, 2, 3, 3, 7, 2, 0, 3, 6, 8, 5, 4, 7, 7, 5, 8, 0, 8] \<and>
   calculateChecksum (decimal (2 ^ 63)) = Inr 8"
proof -
  have m: "intToDigits (- (2 ^ 63)) = Inr []" by (rule intToDigits_min)
  have m64: "int64ToDigits (- (2 ^ 63)) = Inr []"
    using m by (simp add: int64ToDigits_def intToDigits_def)
  have c0: "calculateChecksum [] = Inr 0" by code_simp
  have dec: "decimal (2 ^ 63) = [9, 2, 2, 3, 3, 7, 2, 0, 3, 6, 8, 5, 4, 7, 7, 5, 8, 0, 8]"
    by (simp add: decimal.simps)
  have c: "calculateChecksum [9, 2, 2, 3, 3, 7, 2, 0, 3, 6, 8, 5, 4, 7, 7, 5, 8, 0, 8] = Inr 8"
    by code_simp
  show ?thesis
    using m m64 c0 dec c by (simp add: GenerateInt_def GenerateInt64_def)
qed

end
